theory Spec2Isabelle
  imports Main "HOL-Library.Word" "HOL-Library.Monad_Syntax"
begin

unbundle bit_operations_syntax

section \<open>Bytes, buffers and results\<close>

text \<open>
  The program (em-admin.c) handles \<^verbatim>\<open>unsigned char\<close> arrays together with a separate
  length. A buffer is modelled as the list of the bytes of the whole array object; the
  length handed to a function is a separate argument, as in the source. A read or write
  outside the array object is undefined behaviour in C: the model gives \<open>None\<close> there, and
  a function whose run has no defined result returns \<open>None\<close>. \<open>None\<close> is also the value of
  a loop that never ends.

  Values of type \<^verbatim>\<open>size_t\<close> are natural numbers (64 bits wide, the wrap-around of a
  subtraction written out), \<^verbatim>\<open>unsigned char\<close> is \<open>8 word\<close>, \<^verbatim>\<open>unsigned int\<close> counters that
  run along a buffer are \<open>32 word\<close>, values promoted to \<^verbatim>\<open>int\<close> are \<open>int\<close>.

  The text of the log lines is not modelled. The model keeps the values handed to the
  log and every read of a frame buffer that computes them, and, where a line is put
  together by \<^verbatim>\<open>sprintf\<close> in a local character array (\<^verbatim>\<open>buf[64]\<close> in \<^verbatim>\<open>em_read_info\<close>), the
  number of characters written, since a write behind the end of that array is undefined
  behaviour as well. An arithmetic overflow of an \<^verbatim>\<open>int\<close> is undefined, too.
\<close>

type_synonym u8 = "8 word"

definition rd :: "u8 list \<Rightarrow> nat \<Rightarrow> u8 option" where
  "rd data i = (if i < length data then Some (data ! i) else None)"

text \<open>An index computed in \<^verbatim>\<open>int\<close>, which can be negative.\<close>

definition rdi :: "u8 list \<Rightarrow> int \<Rightarrow> u8 option" where
  "rdi data i = (if 0 \<le> i then rd data (nat i) else None)"

definition wr :: "u8 list \<Rightarrow> nat \<Rightarrow> u8 \<Rightarrow> u8 list option" where
  "wr data i v = (if i < length data then Some (data[i := v]) else None)"

text \<open>\<^verbatim>\<open>a - b\<close> on \<^verbatim>\<open>size_t\<close>: it wraps around below zero.\<close>

definition size_sub :: "nat \<Rightarrow> nat \<Rightarrow> nat" where
  "size_sub a b = (if b \<le> a then a - b else a + 2 ^ 64 - b)"

definition MBUS_FRAME_ACK :: u8 where "MBUS_FRAME_ACK = 0xE5"
definition MBUS_FRAME_SHORT_START :: u8 where "MBUS_FRAME_SHORT_START = 0x10"
definition MBUS_FRAME_LONG_START :: u8 where "MBUS_FRAME_LONG_START = 0x68"
definition MBUS_FRAME_STOP :: u8 where "MBUS_FRAME_STOP = 0x16"
definition MBUS_C_SND_UD :: u8 where "MBUS_C_SND_UD = 0x53"
definition MBUS_C_REQ_UD2 :: u8 where "MBUS_C_REQ_UD2 = 0x7b"
definition MBUS_CI_DATA_SEND :: u8 where "MBUS_CI_DATA_SEND = 0x51"
definition MBUS_CI_RSPUD12 :: u8 where "MBUS_CI_RSPUD12 = 0x72"
definition MBUS_FRAME_SHORT_HDR_LEN :: nat where "MBUS_FRAME_SHORT_HDR_LEN = 1 + 1 + 1"
definition MBUS_FRAME_LONG_HDR_LEN :: nat where "MBUS_FRAME_LONG_HDR_LEN = 4 + 1 + 1 + 1"
definition MBUS_FRAME_FTR_LEN :: nat where "MBUS_FRAME_FTR_LEN = 1 + 1"
definition MBUS_RSPUD12_HDR_LEN :: nat where "MBUS_RSPUD12_HDR_LEN = 4 + 2 + 1 + 1 + 1 + 1 + 2"

section \<open>Checksum of a long frame\<close>

text \<open>
  \<^verbatim>\<open>for (unsigned int i = 4; i < (len - 2); i++) cs += frame[i];\<close>
  The counter is an \<^verbatim>\<open>unsigned int\<close> and wraps at \<open>2 ^ 32\<close>; the bound is computed in
  \<^verbatim>\<open>size_t\<close>; the sum is an \<^verbatim>\<open>unsigned char\<close> and wraps at 256.
\<close>

partial_function (option) cslong_loop :: "u8 list \<Rightarrow> nat \<Rightarrow> 32 word \<Rightarrow> u8 \<Rightarrow> u8 option" where
  "cslong_loop frame bound i cs =
     (if unat i < bound
      then Option.bind (rd frame (unat i)) (\<lambda>b. cslong_loop frame bound (i + 1) (cs + b))
      else Some cs)"

declare cslong_loop.simps [code]

definition mbus_cslong :: "u8 list \<Rightarrow> nat \<Rightarrow> u8 option" where
  "mbus_cslong frame len = cslong_loop frame (size_sub len 2) 4 0"

section \<open>Validation of a long frame\<close>

text \<open>The error line that \<^verbatim>\<open>mbus_checklong\<close> logs before it returns 0.\<close>

datatype long_error =
  TooSmall | InvalidStart | MismatchingLength | ExceedsBuffer | InvalidStop | InvalidChecksum

text \<open>
  \<open>Some (Inl e)\<close>: the function logged \<open>e\<close> and returned 0. \<open>Some (Inr ll)\<close>: it passed every
  check and returned \<open>ll\<close>, an \<^verbatim>\<open>unsigned char\<close>. The operands of \<^verbatim>\<open>||\<close> are read from left
  to right, the second only when the first is false. When the control information is
  \<^verbatim>\<open>MBUS_CI_RSPUD12\<close> the bytes 7 to 18 are read for the log lines.
\<close>

definition mbus_checklong :: "u8 list \<Rightarrow> nat \<Rightarrow> (long_error + u8) option" where
  "mbus_checklong data len =
     (if len < MBUS_FRAME_LONG_HDR_LEN + MBUS_FRAME_FTR_LEN then Some (Inl TooSmall)
      else do {
        d0 \<leftarrow> rd data 0;
        badstart \<leftarrow> (if d0 \<noteq> MBUS_FRAME_LONG_START then Some True
                     else do { d3 \<leftarrow> rd data 3; Some (d3 \<noteq> MBUS_FRAME_LONG_START) });
        if badstart then Some (Inl InvalidStart)
        else do {
          d1 \<leftarrow> rd data 1;
          d2 \<leftarrow> rd data 2;
          if d1 \<noteq> d2 then Some (Inl MismatchingLength)
          else do {
            let ll = d1 + 4 + of_nat MBUS_FRAME_FTR_LEN;
            if unat ll > len then Some (Inl ExceedsBuffer)
            else do {
              stop \<leftarrow> rdi data (uint ll - 1);
              if stop \<noteq> MBUS_FRAME_STOP then Some (Inl InvalidStop)
              else do {
                cs \<leftarrow> mbus_cslong data (unat ll);
                chk \<leftarrow> rdi data (uint ll - int MBUS_FRAME_FTR_LEN);
                if cs \<noteq> chk then Some (Inl InvalidChecksum)
                else do {
                  c \<leftarrow> rd data 4;
                  a \<leftarrow> rd data 5;
                  ci \<leftarrow> rd data 6;
                  envelope \<leftarrow> (if ci = MBUS_CI_RSPUD12
                               then those (map (rd data) [7..<19]) else Some []);
                  Some (Inr ll)
                }
              }
            }
          }
        }
      })"

text \<open>The \<^verbatim>\<open>int\<close> that the caller of \<^verbatim>\<open>mbus_checklong\<close> sees.\<close>

definition checklong_ret :: "long_error + u8 \<Rightarrow> int" where
  "checklong_ret r = (case r of Inl e \<Rightarrow> 0 | Inr ll \<Rightarrow> uint ll)"


section \<open>Validation of a short frame\<close>

datatype short_error =
  ShortTooSmall | ShortInvalidStart | ShortInvalidStop | ShortInvalidChecksum

definition mbus_checkshort :: "u8 list \<Rightarrow> nat \<Rightarrow> (short_error + nat) option" where
  "mbus_checkshort data len =
     (if len < MBUS_FRAME_SHORT_HDR_LEN + MBUS_FRAME_FTR_LEN then Some (Inl ShortTooSmall)
      else do {
        d0 \<leftarrow> rd data 0;
        if d0 \<noteq> MBUS_FRAME_SHORT_START then Some (Inl ShortInvalidStart)
        else do {
          stop \<leftarrow> rd data (MBUS_FRAME_SHORT_HDR_LEN + MBUS_FRAME_FTR_LEN - 1);
          if stop \<noteq> MBUS_FRAME_STOP then Some (Inl ShortInvalidStop)
          else do {
            d1 \<leftarrow> rd data 1;
            d2 \<leftarrow> rd data 2;
            chk \<leftarrow> rd data MBUS_FRAME_SHORT_HDR_LEN;
            if d1 + d2 \<noteq> chk then Some (Inl ShortInvalidChecksum)
            else Some (Inr (MBUS_FRAME_SHORT_HDR_LEN + MBUS_FRAME_FTR_LEN))
          }
        }
      })"

definition checkshort_ret :: "short_error + nat \<Rightarrow> int" where
  "checkshort_ret r = (case r of Inl e \<Rightarrow> 0 | Inr n \<Rightarrow> int n)"

section \<open>The serial transport\<close>

text \<open>
  The transport is the serial line behind the file descriptor. \<open>written\<close> collects the
  bytes of every \<^verbatim>\<open>serial_write\<close>, in order. \<open>incoming\<close> holds, for each coming
  \<^verbatim>\<open>serial_read\<close>, the bytes that arrive before its time-out; with nothing left, nothing
  arrives.
\<close>

record transport =
  written :: "u8 list list"
  incoming :: "u8 list list"

text \<open>The values of \<^verbatim>\<open>errno.h\<close> on Linux.\<close>

definition EIO :: int where "EIO = 5"
definition EPROTO :: int where "EPROTO = 71"

definition serial_write :: "transport \<Rightarrow> u8 list \<Rightarrow> nat \<Rightarrow> (int \<times> transport) option" where
  "serial_write t data len =
     (if len \<le> length data
      then Some (int len, t\<lparr>written := written t @ [take len data]\<rparr>)
      else None)"

text \<open>
  \<^verbatim>\<open>serial_read\<close> stores at most \<open>maxbytes\<close> bytes at the start of \<open>data\<close> and returns their
  number, or \<open>- EIO\<close> when none arrived. Bytes that did not fit stay on the line.
\<close>

definition serial_read :: "transport \<Rightarrow> u8 list \<Rightarrow> nat \<Rightarrow> (int \<times> u8 list \<times> transport) option" where
  "serial_read t data maxbytes =
     (case incoming t of
        [] \<Rightarrow> Some (- EIO, data, t)
      | r # rs \<Rightarrow>
          (let got = take maxbytes r;
               rest = drop maxbytes r;
               t' = t\<lparr>incoming := (if rest = [] then rs else rest # rs)\<rparr>
           in if length data < length got then None
              else if got = [] then Some (- EIO, data, t')
              else Some (int (length got), got @ drop (length got) data, t')))"

text \<open>The bytes that the next \<^verbatim>\<open>serial_read\<close> of at most \<open>maxbytes\<close> bytes delivers.\<close>

definition next_reply :: "transport \<Rightarrow> nat \<Rightarrow> u8 list" where
  "next_reply t maxbytes = (case incoming t of [] \<Rightarrow> [] | r # rs \<Rightarrow> take maxbytes r)"

section \<open>One exchange\<close>

text \<open>
  \<^verbatim>\<open>mbus_io\<close> returns the value of the C function, the two buffers as it leaves them, and
  the transport. The first operand of each \<^verbatim>\<open>&&\<close> guards the read of \<^verbatim>\<open>out[0]\<close>.
\<close>

definition mbus_io ::
  "transport \<Rightarrow> u8 list \<Rightarrow> nat \<Rightarrow> u8 list \<Rightarrow> nat \<Rightarrow> (int \<times> u8 list \<times> u8 list \<times> transport) option" where
  "mbus_io t out outlen inb inlen =
     do {
       short \<leftarrow> (if outlen = MBUS_FRAME_SHORT_HDR_LEN + MBUS_FRAME_FTR_LEN
                 then do { o0 \<leftarrow> rd out 0; Some (o0 = MBUS_FRAME_SHORT_START) }
                 else Some False);
       if short then do {
         o1 \<leftarrow> rd out 1;
         o2 \<leftarrow> rd out 2;
         out' \<leftarrow> wr out (size_sub outlen MBUS_FRAME_FTR_LEN) (o1 + o2);
         r \<leftarrow> mbus_checkshort out' outlen;
         if checkshort_ret r = 0 then Some (- EPROTO, out', inb, t)
         else do {
           (n, t') \<leftarrow> serial_write t out' outlen;
           (len, inb', t'') \<leftarrow> serial_read t' inb inlen;
           Some (len, out', inb', t'')
         }
       }
       else do {
         long \<leftarrow> (if outlen \<ge> MBUS_FRAME_LONG_HDR_LEN + MBUS_FRAME_FTR_LEN
                  then do { o0 \<leftarrow> rd out 0; Some (o0 = MBUS_FRAME_LONG_START) }
                  else Some False);
         if long then do {
           cs \<leftarrow> mbus_cslong out outlen;
           out' \<leftarrow> wr out (size_sub outlen MBUS_FRAME_FTR_LEN) cs;
           r \<leftarrow> mbus_checklong out' outlen;
           if checklong_ret r = 0 then Some (- EPROTO, out', inb, t)
           else do {
             (n, t') \<leftarrow> serial_write t out' outlen;
             (len, inb', t'') \<leftarrow> serial_read t' inb inlen;
             Some (len, out', inb', t'')
           }
         }
         else Some (- EPROTO, out, inb, t)
       }
     }"

text \<open>
  \<^verbatim>\<open>mbus_io_acked\<close>: \<open>inb\<close> is the content of the local array \<^verbatim>\<open>in[8]\<close> before the call,
  which the source leaves uninitialised.
\<close>

definition mbus_io_acked :: "transport \<Rightarrow> u8 list \<Rightarrow> nat \<Rightarrow> u8 list \<Rightarrow> (int \<times> transport) option" where
  "mbus_io_acked t out outlen inb =
     do {
       (len, out', inb', t') \<leftarrow> mbus_io t out outlen inb 8;
       if len < 0 then Some (- len, t')
       else do {
         bad \<leftarrow> (if len < 1 then Some True
                 else do { i0 \<leftarrow> rd inb' 0; Some (i0 \<noteq> MBUS_FRAME_ACK) });
         if bad then Some (EPROTO, t') else Some (0, t')
       }
     }"

section \<open>Requests answered by an acknowledgement\<close>

text \<open>
  The layout of the long frames that the \<^verbatim>\<open>em_\<close> functions write down as array literals:
  start, length twice, start, control, address, control information, the data, a
  checksum byte that \<^verbatim>\<open>mbus_io\<close> fills in, stop. The length byte is an \<^verbatim>\<open>unsigned char\<close>.
\<close>

definition long_frame :: "u8 \<Rightarrow> u8 \<Rightarrow> u8 \<Rightarrow> u8 list \<Rightarrow> u8 list" where
  "long_frame c a ci payload =
     [MBUS_FRAME_LONG_START, of_nat (3 + length payload), of_nat (3 + length payload),
      MBUS_FRAME_LONG_START, c, a, ci] @ payload @ [0x00, MBUS_FRAME_STOP]"

definition EM_SET_KEYDAY_MONTH :: u8 where "EM_SET_KEYDAY_MONTH = 10"
definition EM_SET_KEYDAY_DAY :: u8 where "EM_SET_KEYDAY_DAY = 3"

definition em_set_keyday :: "transport \<Rightarrow> u8 list \<Rightarrow> (int \<times> transport) option" where
  "em_set_keyday t inb =
     (let frame_out =
        [MBUS_FRAME_LONG_START, 8, 8, MBUS_FRAME_LONG_START,
         MBUS_C_SND_UD, 254, MBUS_CI_DATA_SEND,
         0x02, 0xec,
         0x00,
         EM_SET_KEYDAY_DAY OR 0xE0,
         EM_SET_KEYDAY_MONTH OR 0xF0,
         0x00,
         MBUS_FRAME_STOP]
      in mbus_io_acked t frame_out (length frame_out) inb)"

text \<open>
  \<^verbatim>\<open>em_set_aes\<close> returns 7 right after the declaration of its frame; the call of
  \<^verbatim>\<open>mbus_io_acked\<close> behind that \<^verbatim>\<open>return\<close> is never reached.
\<close>

definition em_set_aes :: "transport \<Rightarrow> (int \<times> transport) option" where
  "em_set_aes t =
     (let frame_out =
        [MBUS_FRAME_LONG_START, 28, 28, MBUS_FRAME_LONG_START,
         MBUS_C_SND_UD, 254, MBUS_CI_DATA_SEND,
         0x0f, 0x83,
         0x00, 0x00, 0x60,
         0x00, 0x00, 0x00, 0x00,
         0x89, 0x4f, 0x9f, 0x34, 0xcd, 0xd1, 0x93, 0x41,
         0xab, 0xdc, 0xff, 0x5b, 0xea, 0x66, 0x10, 0xbc,
         0x00,
         MBUS_FRAME_STOP :: u8]
      in Some (7, t))"

section \<open>Reading the info records\<close>

text \<open>
  What one turn of the decoding loop of \<^verbatim>\<open>em_read_info\<close> hands to the log: the DIF and
  VIF bytes with their extensions where present, the storage number, the raw data bytes
  and the value printed after \<^verbatim>\<open>VAL:\<close>.
\<close>

datatype info_value =
  DateTime (dt_year: int) (dt_month: int) (dt_day: int) (dt_hour: int) (dt_minute: int)
  | Plain int
  | Date int int int
  | NoValue

record info_line =
  dif :: u8
  dife :: "u8 option"
  vif :: u8
  vife :: "u8 option"
  sn :: int
  raw :: "u8 list"
  val :: info_value

text \<open>
  A turn of the loop at position \<open>p\<close> either leaves the loop at \<^verbatim>\<open>if (df > 7) break;\<close>
  before anything is logged, or logs a line and moves \<open>p\<close> to \<open>d + l\<close>. The bytes at \<open>p + 1\<close>
  and behind the VIF are read in every turn, as arguments of \<^verbatim>\<open>sprintf\<close>, whether or not
  the DIF or the VIF has an extension. The positions \<open>p\<close> (a \<^verbatim>\<open>size_t\<close>) and \<open>d\<close> (an
  \<^verbatim>\<open>unsigned int\<close>) never exceed 255 + 12 in the loop, so they are natural numbers here.
\<close>

datatype info_step = Unsupported | Line info_line nat

definition ldb :: "nat list" where
  "ldb = [0, 1, 2, 3, 4, 4, 6, 8]"

text \<open>
  The values printed after \<^verbatim>\<open>VAL:\<close>, as functions of the data bytes \<^verbatim>\<open>frame_in[d]\<close> to
  \<^verbatim>\<open>frame_in[d + 3]\<close>: the arguments of the three \<^verbatim>\<open>sprintf\<close> calls at the end of the turn.
\<close>

definition datetime_value :: "u8 \<Rightarrow> u8 \<Rightarrow> u8 \<Rightarrow> u8 \<Rightarrow> info_value" where
  "datetime_value d0 d1 d2 d3 =
     DateTime (2000 + (drop_bit 5 (uint d2) OR drop_bit 1 (uint d3 AND 0b11110000)))
              (uint d3 AND 0b1111) (uint d2 AND 0b11111) (uint d1) (uint d0)"

definition plain_value :: "u8 \<Rightarrow> u8 \<Rightarrow> u8 \<Rightarrow> u8 \<Rightarrow> info_value" where
  "plain_value d0 d1 d2 d3 =
     Plain (push_bit 24 (uint d3) OR push_bit 16 (uint d2) OR push_bit 8 (uint d1) OR uint d0)"

definition date_value :: "u8 \<Rightarrow> u8 \<Rightarrow> info_value" where
  "date_value d0 d1 =
     Date (2000 + (drop_bit 5 (uint d0) OR drop_bit 1 (uint d1 AND 0b11110000)))
          (uint d1 AND 0b1111) (uint d0 AND 0b11111)"

text \<open>
  The line is put together in \<^verbatim>\<open>char buf[64]\<close> by calls \<^verbatim>\<open>b += sprintf(buf + b, ...)\<close>. A call
  that prints \<open>n\<close> characters writes them and a terminating zero from offset \<open>b\<close> on; behind
  the end of the array that is undefined. \<open>dec_len\<close> is the number of decimal digits of a
  number that is not negative, \<open>fmt_d k\<close> the number of characters of \<^verbatim>\<open>%0kd\<close>; \<^verbatim>\<open>%02x\<close> of a
  byte has two characters.
\<close>

definition sprintf_buf :: "nat \<Rightarrow> nat \<Rightarrow> nat option" where
  "sprintf_buf b n = (if b + n + 1 \<le> 64 then Some (b + n) else None)"

function dec_len :: "int \<Rightarrow> nat" where
  "dec_len n = (if n < 10 then 1 else 1 + dec_len (n div 10))"
  by pat_completeness auto
termination
  by (relation "measure nat") auto

declare dec_len.simps [simp del]

definition fmt_d :: "nat \<Rightarrow> int \<Rightarrow> nat" where
  "fmt_d k v = max k (dec_len v)"

text \<open>
  The characters of \<^verbatim>\<open>" VAL: %04d-%02d-%02d %02d:%02d"\<close>, of \<^verbatim>\<open>" VAL: %ld"\<close> and of
  \<^verbatim>\<open>"       VAL: %04d-%02d-%02d"\<close>.
\<close>

definition val_len :: "info_value \<Rightarrow> nat" where
  "val_len v =
     (case v of
        DateTime y m d h mi \<Rightarrow>
          6 + fmt_d 4 y + 1 + fmt_d 2 m + 1 + fmt_d 2 d + 1 + fmt_d 2 h + 1 + fmt_d 2 mi
      | Plain x \<Rightarrow> 6 + dec_len x
      | Date y m d \<Rightarrow> 12 + fmt_d 4 y + 1 + fmt_d 2 m + 1 + fmt_d 2 d
      | NoValue \<Rightarrow> 0)"

text \<open>\<^verbatim>\<open>for (unsigned int j = 0; j < l; j++) b += sprintf(buf + b, "%02x ", frame_in[d + j]);\<close>\<close>

fun raw_buf :: "nat \<Rightarrow> u8 list \<Rightarrow> nat option" where
  "raw_buf b [] = Some b"
| "raw_buf b (x # xs) = sprintf_buf b 3 \<bind> (\<lambda>b'. raw_buf b' xs)"

text \<open>
  The turn in three parts: \<open>info_val\<close> is the chain of \<^verbatim>\<open>if\<close>s that prints the value,
  \<open>read_info_line\<close> the turn behind \<^verbatim>\<open>if (df > 7) break;\<close>, with \<open>n4\<close> characters in \<^verbatim>\<open>buf\<close>
  so far, and \<open>read_info_record\<close> the turn from its start.
\<close>

definition info_val :: "u8 list \<Rightarrow> nat \<Rightarrow> nat \<Rightarrow> u8 \<Rightarrow> info_value option" where
  "info_val frame_in d df bv =
     (if df = 4 \<and> bv = 0x6d then do {
        d0 \<leftarrow> rd frame_in d;
        d1 \<leftarrow> rd frame_in (d + 1);
        d2 \<leftarrow> rd frame_in (d + 2);
        d3 \<leftarrow> rd frame_in (d + 3);
        Some (datetime_value d0 d1 d2 d3)
      }
      else if df = 4 then do {
        d0 \<leftarrow> rd frame_in d;
        d1 \<leftarrow> rd frame_in (d + 1);
        d2 \<leftarrow> rd frame_in (d + 2);
        d3 \<leftarrow> rd frame_in (d + 3);
        Some (plain_value d0 d1 d2 d3)
      }
      else if df = 2 \<and> bv = 0x6c then do {
        d0 \<leftarrow> rd frame_in d;
        d1 \<leftarrow> rd frame_in (d + 1);
        Some (date_value d0 d1)
      }
      else Some NoValue)"

definition read_info_line ::
  "u8 list \<Rightarrow> u8 \<Rightarrow> u8 \<Rightarrow> u8 \<Rightarrow> u8 \<Rightarrow> nat \<Rightarrow> nat \<Rightarrow> nat \<Rightarrow> nat \<Rightarrow> nat \<Rightarrow> info_step option" where
  "read_info_line frame_in b0 b1 bv bx hasdife hasvife d df n4 =
     do {
       let l = ldb ! df;
       let sn0 = drop_bit 6 (uint b0 AND 0b1000000);
       let sn1 = (if hasdife \<noteq> 0 then sn0 OR push_bit 1 (uint b1 AND 0b1111) else sn0);
       n5 \<leftarrow> sprintf_buf n4 (5 + dec_len sn1);
       n6 \<leftarrow> sprintf_buf n5 6;
       bytes \<leftarrow> those (map (\<lambda>j. rd frame_in (d + j)) [0..<l]);
       n7 \<leftarrow> raw_buf n6 bytes;
       v \<leftarrow> info_val frame_in d df bv;
       n8 \<leftarrow> (if v = NoValue then Some n7 else sprintf_buf n7 (val_len v));
       Some (Line \<lparr>dif = b0, dife = (if hasdife \<noteq> 0 then Some b1 else None),
                   vif = bv, vife = (if hasvife \<noteq> 0 then Some bx else None),
                   sn = sn1, raw = bytes, val = v\<rparr> (d + l))
     }"

definition read_info_record :: "u8 list \<Rightarrow> nat \<Rightarrow> info_step option" where
  "read_info_record frame_in p =
     do {
       b0 \<leftarrow> rd frame_in p;
       let hasdife = nat (drop_bit 7 (uint b0 AND 0x80));
       bv \<leftarrow> rd frame_in (p + 1 + hasdife);
       let hasvife = nat (drop_bit 7 (uint bv AND 0x80));
       let d = p + 1 + hasdife + 1 + hasvife;
       n1 \<leftarrow> sprintf_buf 0 (5 + 2);
       b1 \<leftarrow> rd frame_in (p + 1);
       n2 \<leftarrow> sprintf_buf n1 3;
       n3 \<leftarrow> sprintf_buf n2 (6 + 2);
       bx \<leftarrow> rd frame_in (p + 1 + hasdife + 1);
       n4 \<leftarrow> sprintf_buf n3 3;
       let df = nat (uint b0 AND 0b1111);
       if df > 7 then Some Unsupported
       else read_info_line frame_in b0 b1 bv bx hasdife hasvife d df n4
     }"

text \<open>
  The loop \<^verbatim>\<open>for (unsigned int i = 0; ; i++)\<close>. It ends at an unsupported data format, or
  behind a logged line when \<^verbatim>\<open>p > frame_in[1]\<close>. The number of the line is its place in
  the list.
\<close>

function read_info_loop :: "u8 list \<Rightarrow> nat \<Rightarrow> info_line list \<Rightarrow> info_line list option" where
  "read_info_loop frame_in p acc =
     do {
       step \<leftarrow> read_info_record frame_in p;
       case step of
         Unsupported \<Rightarrow> Some acc
       | Line ln p' \<Rightarrow> do {
           f1 \<leftarrow> rd frame_in 1;
           if p' > unat f1 then Some (acc @ [ln])
           else read_info_loop frame_in p' (acc @ [ln])
         }
     }"
  by pat_completeness auto
termination
proof (relation "measure (\<lambda>(frame_in, p, acc). 256 - p)")
  show "wf (measure (\<lambda>(frame_in, p, acc). 256 - p))" by simp
next
  fix frame_in :: "u8 list" and p :: nat and acc :: "info_line list"
    and step ln p' f1
  assume step: "read_info_record frame_in p = Some step" "step = Line ln p'"
    and f1: "rd frame_in 1 = Some f1" and le: "\<not> unat f1 < p'"
  have "p < p'"
    using step(1) [unfolded step(2)] unfolding read_info_record_def Let_def
    apply (elim bind_eq_Some_conv [THEN iffD1, elim_format] exE conjE)
    apply (simp only: split: if_split_asm)
     apply simp
    apply (unfold read_info_line_def Let_def)
    apply (elim bind_eq_Some_conv [THEN iffD1, elim_format] exE conjE)
    apply simp
    done
  moreover have "unat f1 < 256"
    using unsigned_less [of f1, where ?'a = nat] by simp
  ultimately show "((frame_in, p', acc @ [ln]), (frame_in, p, acc))
      \<in> measure (\<lambda>(frame_in, p, acc). 256 - p)"
    using le by simp
qed

declare read_info_loop.simps [simp del]

text \<open>
  The heads of the loop: \<open>read_info_visits frame_in p acc\<close> holds when the loop comes to its
  head with the position \<open>p\<close>, having logged the lines \<open>acc\<close>. It starts behind the frame
  header and the envelope and goes on behind every logged line that does not end it.
\<close>

inductive read_info_visits :: "u8 list \<Rightarrow> nat \<Rightarrow> info_line list \<Rightarrow> bool"
  for frame_in :: "u8 list" where
    start: "read_info_visits frame_in (MBUS_FRAME_LONG_HDR_LEN + MBUS_RSPUD12_HDR_LEN) []"
  | step: "read_info_visits frame_in p acc \<Longrightarrow>
           read_info_record frame_in p = Some (Line ln p') \<Longrightarrow>
           rd frame_in 1 = Some f1 \<Longrightarrow> \<not> p' > unat f1 \<Longrightarrow>
           read_info_visits frame_in p' (acc @ [ln])"

text \<open>
  \<^verbatim>\<open>em_read_info\<close>: \<open>frame_in\<close> is the content of the local array \<^verbatim>\<open>frame_in[256]\<close> before
  the call, which the source leaves uninitialised. The result is the returned value,
  the logged lines and the transport.
\<close>

definition em_read_info ::
  "transport \<Rightarrow> u8 list \<Rightarrow> (int \<times> info_line list \<times> transport) option" where
  "em_read_info t frame_in =
     (let frame_out = [MBUS_FRAME_SHORT_START, MBUS_C_REQ_UD2, 254, 0x00, MBUS_FRAME_STOP]
      in do {
        (len, out', frame_in', t') \<leftarrow> mbus_io t frame_out (length frame_out) frame_in 256;
        if len < 0 then Some (- len, [], t')
        else do {
          r \<leftarrow> mbus_checklong frame_in' (nat len);
          if checklong_ret r < 71 then Some (EPROTO, [], t')
          else do {
            lines \<leftarrow> read_info_loop frame_in' (MBUS_FRAME_LONG_HDR_LEN + MBUS_RSPUD12_HDR_LEN) [];
            Some (0, lines, t')
          }
        }
      })"

section \<open>Reading the monthly totals\<close>

text \<open>
  The four values of one line \<^verbatim>\<open>EM_METER_READING_\<close>, from the six bytes at \<open>off\<close>. The
  reading is computed in \<^verbatim>\<open>int\<close>, 32 bits wide, with no cast (the decoder of
  \<^verbatim>\<open>em_read_info\<close> casts the top byte to \<^verbatim>\<open>unsigned long\<close>): a top byte of \<open>0x80\<close> or more,
  shifted by 24, does not fit and the shift is undefined.
\<close>

record month_reading =
  mr_year :: int
  mr_month :: int
  mr_day :: int
  mr_reading :: int

definition months_reading :: "u8 \<Rightarrow> u8 \<Rightarrow> u8 \<Rightarrow> u8 \<Rightarrow> int option" where
  "months_reading b2 b3 b4 b5 =
     (if push_bit 24 (uint b5) < 2 ^ 31
      then Some (push_bit 24 (uint b5) OR push_bit 16 (uint b4) OR push_bit 8 (uint b3) OR uint b2)
      else None)"

definition months_record :: "u8 list \<Rightarrow> nat \<Rightarrow> month_reading option" where
  "months_record frame_in off =
     do {
       b0 \<leftarrow> rd frame_in off;
       b1 \<leftarrow> rd frame_in (off + 1);
       b2 \<leftarrow> rd frame_in (off + 2);
       b3 \<leftarrow> rd frame_in (off + 3);
       b4 \<leftarrow> rd frame_in (off + 4);
       b5 \<leftarrow> rd frame_in (off + 5);
       reading \<leftarrow> months_reading b2 b3 b4 b5;
       Some \<lparr>mr_year = 2000 + drop_bit 1 (uint b1 AND 0b11111110),
             mr_month = drop_bit 5 ((push_bit 8 (uint b1) OR uint b0) AND 0b111100000),
             mr_day = uint b0 AND 0b11111,
             mr_reading = reading\<rparr>
     }"

text \<open>\<^verbatim>\<open>for (unsigned int i = 0; i < 15; i++)\<close>\<close>

function months_loop :: "u8 list \<Rightarrow> nat \<Rightarrow> month_reading list \<Rightarrow> month_reading list option" where
  "months_loop frame_in i acc =
     (if i < 15 then do {
        r \<leftarrow> months_record frame_in (MBUS_FRAME_LONG_HDR_LEN + MBUS_RSPUD12_HDR_LEN + i * 6);
        months_loop frame_in (i + 1) (acc @ [r])
      }
      else Some acc)"
  by pat_completeness auto
termination
  by (relation "measure (\<lambda>(frame_in, i, acc). 15 - i)") auto

declare months_loop.simps [simp del]

text \<open>
  \<^verbatim>\<open>for (unsigned int i = 0; i <= 1; i++)\<close>: two exchanges, the second with the sub-command
  changed to \<open>0x03\<close>. Both use the same \<^verbatim>\<open>frame_out\<close> and \<^verbatim>\<open>frame_in\<close>.
\<close>

function em_read_months_loop ::
  "transport \<Rightarrow> u8 list \<Rightarrow> u8 list \<Rightarrow> nat \<Rightarrow> month_reading list
     \<Rightarrow> (int \<times> month_reading list \<times> transport) option" where
  "em_read_months_loop t frame_out frame_in i lg =
     (if i \<le> 1 then do {
        frame_out1 \<leftarrow> (if i = 1 then wr frame_out (MBUS_FRAME_LONG_HDR_LEN + 1) 0x03
                       else Some frame_out);
        (len, out', frame_in', t') \<leftarrow> mbus_io t frame_out1 (length frame_out1) frame_in 256;
        if len < 0 then Some (- len, lg, t')
        else do {
          r \<leftarrow> mbus_checklong frame_in' (nat len);
          if checklong_ret r < 111 then Some (EPROTO, lg, t')
          else do {
            recs \<leftarrow> months_loop frame_in' 0 [];
            em_read_months_loop t' out' frame_in' (i + 1) (lg @ recs)
          }
        }
      }
      else Some (0, lg, t))"
  by pat_completeness auto
termination
  by (relation "measure (\<lambda>(t, frame_out, frame_in, i, lg). 2 - i)") auto

declare em_read_months_loop.simps [simp del]

definition em_read_months ::
  "transport \<Rightarrow> u8 list \<Rightarrow> (int \<times> month_reading list \<times> transport) option" where
  "em_read_months t frame_in =
     (let frame_out =
        [MBUS_FRAME_LONG_START, 8, 8, MBUS_FRAME_LONG_START,
         MBUS_C_SND_UD, 254, MBUS_CI_DATA_SEND,
         0x0f, 0x02,
         0x00, 0x00, 0x60,
         0x00,
         MBUS_FRAME_STOP]
      in em_read_months_loop t frame_out frame_in 0 [])"

section \<open>Auxiliary facts\<close>

lemmas mbus_consts =
  MBUS_FRAME_ACK_def MBUS_FRAME_SHORT_START_def MBUS_FRAME_LONG_START_def
  MBUS_FRAME_STOP_def MBUS_C_SND_UD_def MBUS_C_REQ_UD2_def MBUS_CI_DATA_SEND_def
  MBUS_CI_RSPUD12_def MBUS_FRAME_SHORT_HDR_LEN_def MBUS_FRAME_LONG_HDR_LEN_def
  MBUS_FRAME_FTR_LEN_def MBUS_RSPUD12_HDR_LEN_def

lemma cslong_loop_done: "bound \<le> unat i \<Longrightarrow> cslong_loop frame bound i cs = Some cs"
  by (subst cslong_loop.simps) simp

text \<open>
  While the counter cannot wrap and the bound lies inside the buffer, the loop adds up
  the bytes from the counter to the bound.
\<close>

lemma cslong_loop_sum:
  "bound \<le> length frame \<Longrightarrow> bound < 2 ^ 32 \<Longrightarrow> unat i \<le> bound \<Longrightarrow>
   cslong_loop frame bound i cs = Some (cs + sum_list (drop (unat i) (take bound frame)))"
proof (induction "bound - unat i" arbitrary: i cs)
  case 0
  then show ?case by (simp add: cslong_loop_done)
next
  case (Suc n)
  from Suc.hyps(2) have lt: "unat i < bound" by arith
  with Suc.prems have inb: "unat i < length frame" by arith
  have un: "unat (i + 1) = unat i + 1"
    using lt Suc.prems(2) by (simp add: unat_word_ariths)
  have n: "n = bound - unat (i + 1)" using Suc.hyps(2) un by arith
  have le: "unat (i + 1) \<le> bound" using lt un by arith
  have IH: "cslong_loop frame bound (i + 1) (cs + frame ! unat i) =
        Some (cs + frame ! unat i + sum_list (drop (unat (i + 1)) (take bound frame)))"
    by (rule Suc.hyps(1) [OF n Suc.prems(1) Suc.prems(2) le])
  have dr: "drop (unat i) (take bound frame) =
        frame ! unat i # drop (unat (i + 1)) (take bound frame)"
    using lt inb un by (simp add: Cons_nth_drop_Suc [symmetric])
  show ?case
    by (subst cslong_loop.simps) (simp add: lt inb rd_def IH dr add.assoc)
qed

lemma mbus_cslong_sum:
  assumes "2 \<le> len" and "len \<le> length frame + 2" and "len < 2 ^ 32"
  shows "mbus_cslong frame len = Some (sum_list (drop 4 (take (len - 2) frame)))"
proof (cases "4 \<le> len - 2")
  case True
  have "cslong_loop frame (len - 2) 4 0 =
      Some (0 + sum_list (drop (unat (4 :: 32 word)) (take (len - 2) frame)))"
    using assms True by (intro cslong_loop_sum) simp_all
  then show ?thesis using assms by (simp add: mbus_cslong_def size_sub_def)
next
  case False
  then have "cslong_loop frame (len - 2) 4 0 = Some 0"
    by (intro cslong_loop_done) simp
  then show ?thesis using assms False by (simp add: mbus_cslong_def size_sub_def)
qed

section \<open>The safety gate of \<^verbatim>\<open>em_set_aes\<close>\<close>

text \<open>
  C3. \<^verbatim>\<open>em_set_aes\<close> writes nothing to the transport and returns a failure value (7),
  whatever the state of the transport. The function takes no confirmation argument, so
  there is no call in which it transmits.
\<close>

theorem em_set_aes_transmits_nothing:
  "\<exists>ret t'. em_set_aes t = Some (ret, t') \<and> written t' = written t \<and> ret \<noteq> 0"
  by (simp add: em_set_aes_def)

section \<open>The size check of the long-frame validator\<close>

text \<open>
  C5, as the code has it. \<^verbatim>\<open>mbus_checklong\<close> ends with the too-small error exactly when
  the length is less than 9 (\<^verbatim>\<open>MBUS_FRAME_LONG_HDR_LEN + MBUS_FRAME_FTR_LEN\<close>, 7 + 2); from
  9 on that branch is not taken.
\<close>

theorem mbus_checklong_too_small_iff:
  "(mbus_checklong data len = Some (Inl TooSmall)) = (len < 9)"
  by (auto simp: mbus_checklong_def mbus_consts Let_def split: bind_splits if_splits)

text \<open>
  A buffer of 8 bytes, with matching start, length, checksum and stop bytes, is
  rejected as too small: the bound is not 8.
\<close>

theorem mbus_checklong_len8_too_small:
  "\<not> ((mbus_checklong [0x68, 2, 2, 0x68, 0x53, 0xFE, 0x51, 0x16] 8 = Some (Inl TooSmall))
       = ((8::nat) < 8))"
  by (simp add: mbus_checklong_def mbus_consts)

section \<open>The consumed length\<close>

text \<open>
  C10. When \<^verbatim>\<open>mbus_checklong\<close> returns a value other than 0, that value is at most the
  length it was given.
\<close>

theorem mbus_checklong_consumed_le_len:
  "mbus_checklong data len = Some r \<Longrightarrow> checklong_ret r \<noteq> 0 \<Longrightarrow> checklong_ret r \<le> int len"
proof -
  assume a: "mbus_checklong data len = Some r" and nz: "checklong_ret r \<noteq> 0"
  from nz obtain ll where r: "r = Inr ll"
    by (cases r) (auto simp: checklong_ret_def)
  from a r have "unat ll \<le> len"
    by (auto simp: mbus_checklong_def Let_def split: bind_splits if_splits)
  then have "uint ll \<le> int len"
    unfolding uint_nat by (rule iffD2 [OF of_nat_le_iff])
  then show ?thesis using r by (simp add: checklong_ret_def)
qed

theorem mbus_checklong_consumed_le_len_witness:
  "mbus_checklong [0x68, 3, 3, 0x68, 1, 2, 3, 6, 0x16] 9 = Some (Inr 9)
   \<and> checklong_ret (Inr 9) \<noteq> 0 \<and> checklong_ret (Inr 9) \<le> int 9"
proof -
  have h1: "mbus_checklong [0x68, 3, 3, 0x68, 1, 2, 3, 6, 0x16] 9 = Some (Inr 9)"
    by (simp add: mbus_checklong_def mbus_consts rd_def rdi_def mbus_cslong_sum)
  have h2: "checklong_ret (Inr 9) \<noteq> 0" by (simp add: checklong_ret_def)
  show ?thesis using h1 h2 mbus_checklong_consumed_le_len [OF h1 h2] by simp
qed

section \<open>The checksum is the sum of the bytes between the header and the trailer\<close>

lemma unat_sum_list_u8: "unat (sum_list (xs :: u8 list)) = sum_list (map unat xs) mod 256"
proof (induction xs)
  case Nil
  then show ?case by simp
next
  case (Cons x xs)
  have "unat (x + sum_list xs) = (unat x + unat (sum_list xs)) mod 256"
    by (simp add: unat_word_ariths)
  also have "\<dots> = (unat x + sum_list (map unat xs) mod 256) mod 256"
    by (simp only: Cons.IH)
  also have "\<dots> = (unat x + sum_list (map unat xs)) mod 256"
    by (rule mod_add_right_eq)
  finally show ?case by simp
qed

lemma drop_take_nth: "b \<le> length xs \<Longrightarrow> drop a (take b xs) = map ((!) xs) [a..<b]"
  by (rule nth_equalityI) auto

lemma sum_list_slice:
  "b \<le> length xs \<Longrightarrow> sum_list (map f (drop a (take b xs))) = (\<Sum>i = a..<b. f (xs ! i))"
  by (simp add: drop_take_nth comp_def interv_sum_list_conv_sum_set_nat)

text \<open>
  C2, as the code has it. For a length of at least 6 and below \<open>2 ^ 32\<close> that lies inside
  the buffer, \<^verbatim>\<open>mbus_cslong\<close> returns the sum modulo 256 of the bytes at the offsets 4 to
  \<open>len - 3\<close>, and of no other byte.
\<close>

theorem mbus_cslong_is_sum:
  assumes "6 \<le> len" and "len \<le> length frame" and "len < 2 ^ 32"
  shows "\<exists>cs. mbus_cslong frame len = Some cs
           \<and> unat cs = (\<Sum>i = 4..len - 3. unat (frame ! i)) mod 256"
proof -
  have cs: "mbus_cslong frame len = Some (sum_list (drop 4 (take (len - 2) frame)))"
    using assms by (intro mbus_cslong_sum) simp_all
  have "sum_list (map unat (drop 4 (take (len - 2) frame)))
      = (\<Sum>i = 4..<len - 2. unat (frame ! i))"
    using assms by (intro sum_list_slice) simp
  moreover have "{4..<len - 2} = {4..len - 3}"
    using assms by auto
  ultimately have "unat (sum_list (drop 4 (take (len - 2) frame)))
      = (\<Sum>i = 4..len - 3. unat (frame ! i)) mod 256"
    by (simp add: unat_sum_list_u8)
  with cs show ?thesis by simp
qed

theorem mbus_cslong_is_sum_witness:
  "(6::nat) \<le> 9 \<and> 9 \<le> length [0x68, 3, 3, 0x68, 0xF0, 0x20, 3, 0, 0x16 :: u8]
   \<and> (9::nat) < 2 ^ 32
   \<and> (\<exists>cs. mbus_cslong [0x68, 3, 3, 0x68, 0xF0, 0x20, 3, 0, 0x16] 9 = Some cs
         \<and> unat cs
            = (\<Sum>i = 4..9 - 3. unat ([0x68, 3, 3, 0x68, 0xF0, 0x20, 3, 0, 0x16 :: u8] ! i))
              mod 256)
   \<and> mbus_cslong [0x68, 3, 3, 0x68, 0xF0, 0x20, 3, 0, 0x16] 9 = Some 0x13"
proof -
  have h1: "(6::nat) \<le> 9" by simp
  have h2: "9 \<le> length [0x68, 3, 3, 0x68, 0xF0, 0x20, 3, 0, 0x16 :: u8]" by simp
  have h3: "(9::nat) < 2 ^ 32" by simp
  have v: "mbus_cslong [0x68, 3, 3, 0x68, 0xF0, 0x20, 3, 0, 0x16] 9 = Some 0x13"
    by (simp add: mbus_cslong_sum)
  show ?thesis
    using h1 h2 h3 v mbus_cslong_is_sum [OF h1 h2 h3] by (intro conjI) assumption+
qed

text \<open>
  The counter of the loop is an \<^verbatim>\<open>unsigned int\<close>, its bound a \<^verbatim>\<open>size_t\<close>. A bound of \<open>2 ^ 32\<close>
  or more is above every value of the counter, so the loop never ends by its test.
\<close>

lemma cslong_loop_Some_bound:
  assumes "cslong_loop frame bound i cs = Some y"
  shows "bound < 2 ^ 32"
proof (rule cslong_loop.raw_induct [rotated, OF assms])
  fix f :: "u8 list \<Rightarrow> nat \<Rightarrow> 32 word \<Rightarrow> u8 \<Rightarrow> u8 option"
    and frame bound and i :: "32 word" and cs y
  assume IH: "\<And>frame bound i cs y. f frame bound i cs = Some y \<Longrightarrow> bound < 2 ^ 32"
    and step: "(if unat i < bound
                then rd frame (unat i) \<bind> (\<lambda>b. f frame bound (i + 1) (cs + b))
                else Some cs) = Some y"
  have "unat i < 2 ^ 32"
    using unsigned_less [of i, where ?'a = nat] by simp
  with step IH show "bound < 2 ^ 32"
    by (cases "unat i < bound") (auto split: bind_splits)
qed

lemma cslong_loop_never:
  "2 ^ 32 \<le> bound \<Longrightarrow> cslong_loop frame bound i cs = None"
  using cslong_loop_Some_bound [of frame bound i cs]
  by (cases "cslong_loop frame bound i cs") auto

text \<open>
  For a buffer of \<open>2 ^ 32 + 2\<close> bytes and that length the call does not return: the counter
  wraps around to 0 behind \<open>2 ^ 32 - 1\<close> and stays below the bound \<open>2 ^ 32\<close> for ever.
\<close>

theorem mbus_cslong_counter_wraps:
  "6 \<le> (2 ^ 32 + 2 :: nat)
   \<and> (2 ^ 32 + 2 :: nat) \<le> length (replicate (2 ^ 32 + 2) (0 :: u8))
   \<and> mbus_cslong (replicate (2 ^ 32 + 2) 0) (2 ^ 32 + 2) = None"
  by (simp add: mbus_cslong_def size_sub_def cslong_loop_never)

section \<open>What an exchange does\<close>

lemma serial_read_SomeD:
  assumes "serial_read t data maxbytes = Some (n, data', t')"
  shows "written t' = written t
       \<and> (if next_reply t maxbytes = [] then n = - EIO \<and> data' = data
          else n = int (length (next_reply t maxbytes))
             \<and> data' = next_reply t maxbytes @ drop (length (next_reply t maxbytes)) data
             \<and> length (next_reply t maxbytes) \<le> length data)"
  using assms
  by (auto simp: serial_read_def next_reply_def Let_def split: list.splits if_splits)

lemma rd_wr: "wr out i v = Some out' \<Longrightarrow> j \<noteq> i \<Longrightarrow> rd out' j = rd out j"
  by (auto simp: wr_def rd_def split: if_splits)

lemma wr_length: "wr out i v = Some out' \<Longrightarrow> length out' = length out"
  by (auto simp: wr_def split: if_splits)

text \<open>
  Whenever \<^verbatim>\<open>mbus_io\<close> returns, it has either returned \<open>- EPROTO\<close> and left the transport
  and the input buffer alone, or it has written the first \<open>outlen\<close> bytes of the buffer
  with the checksum filled in, once, and that buffer has the shape of a short or of a
  long frame and has passed the validator of that shape.
\<close>

lemma mbus_io_SomeD:
  assumes "mbus_io t out outlen inb inlen = Some (n, out', inb', t')"
  shows "(n = - EPROTO \<and> inb' = inb \<and> t' = t) \<or>
         (serial_read (t\<lparr>written := written t @ [take outlen out']\<rparr>) inb inlen
            = Some (n, inb', t')
          \<and> outlen \<le> length out'
          \<and> ((outlen = 5 \<and> rd out' 0 = Some MBUS_FRAME_SHORT_START
                \<and> (\<exists>r. mbus_checkshort out' outlen = Some r \<and> checkshort_ret r \<noteq> 0))
             \<or> (9 \<le> outlen \<and> rd out' 0 = Some MBUS_FRAME_LONG_START
                \<and> (\<exists>r. mbus_checklong out' outlen = Some r \<and> checklong_ret r \<noteq> 0))))"
  using assms
  by (auto simp: mbus_io_def serial_write_def mbus_consts size_sub_def rd_wr
      split: bind_splits if_splits prod.splits)

section \<open>Exchanges that need an acknowledgement\<close>

text \<open>
  C4, as the code has it. When \<^verbatim>\<open>mbus_io\<close> has sent the frame, \<^verbatim>\<open>mbus_io_acked\<close> looks at
  the reply of at most 8 bytes: with no byte it returns \<open>EIO\<close>, the time-out of
  \<^verbatim>\<open>serial_read\<close>; with a first byte \<open>0xE5\<close> it returns 0, whatever follows that byte;
  with any other first byte it returns \<open>EPROTO\<close>.
\<close>

theorem mbus_io_acked_reply:
  assumes sent: "mbus_io t out outlen inb 8 = Some (n, out', inb', t')"
      and wrote: "written t' \<noteq> written t"
  shows "mbus_io_acked t out outlen inb =
           Some (if next_reply t 8 = [] then EIO
                 else if hd (next_reply t 8) = MBUS_FRAME_ACK then 0 else EPROTO, t')"
proof -
  let ?t1 = "t\<lparr>written := written t @ [take outlen out']\<rparr>"
  from mbus_io_SomeD [OF sent] wrote
  have rdd: "serial_read ?t1 inb 8 = Some (n, inb', t')"
    by auto
  have nr: "next_reply ?t1 8 = next_reply t 8"
    by (simp add: next_reply_def)
  note sr = serial_read_SomeD [OF rdd, unfolded nr]
  show ?thesis
  proof (cases "next_reply t 8 = []")
    case True
    with sr have "n = - EIO" by simp
    then show ?thesis using True sent by (simp add: mbus_io_acked_def EIO_def)
  next
    case False
    from False sr have n: "n = int (length (next_reply t 8))"
      and inb': "inb' = next_reply t 8 @ drop (length (next_reply t 8)) inb"
      by simp_all
    from False have pos: "0 < length (next_reply t 8)" by simp
    have r0: "rd inb' 0 = Some (hd (next_reply t 8))"
      using False pos by (simp add: rd_def inb' nth_append hd_conv_nth)
    show ?thesis
      using False sent pos by (simp add: mbus_io_acked_def n r0)
  qed
qed

text \<open>The frame of \<^verbatim>\<open>em_set_keyday\<close>, acknowledged by the single byte \<open>0xE5\<close>.\<close>

theorem mbus_io_acked_reply_witness:
  "mbus_io \<lparr>written = [], incoming = [[0xE5]]\<rparr>
     [0x68, 8, 8, 0x68, 0x53, 254, 0x51, 0x02, 0xec, 0x00, 0xE3, 0xFA, 0x00, 0x16] 14
     (replicate 8 0) 8
   = Some (1, [0x68, 8, 8, 0x68, 0x53, 254, 0x51, 0x02, 0xec, 0x00, 0xE3, 0xFA, 0x6D, 0x16],
           [0xE5, 0, 0, 0, 0, 0, 0, 0],
           \<lparr>written = [[0x68, 8, 8, 0x68, 0x53, 254, 0x51, 0x02, 0xec, 0x00, 0xE3, 0xFA, 0x6D, 0x16]],
            incoming = []\<rparr>)
   \<and> written \<lparr>written = [[0x68, 8, 8, 0x68, 0x53, 254, 0x51, 0x02, 0xec, 0x00, 0xE3, 0xFA, 0x6D, 0x16 :: u8]],
               incoming = []\<rparr>
      \<noteq> written \<lparr>written = [], incoming = [[0xE5 :: u8]]\<rparr>
   \<and> mbus_io_acked \<lparr>written = [], incoming = [[0xE5]]\<rparr>
        [0x68, 8, 8, 0x68, 0x53, 254, 0x51, 0x02, 0xec, 0x00, 0xE3, 0xFA, 0x00, 0x16] 14
        (replicate 8 0)
      = Some (0, \<lparr>written = [[0x68, 8, 8, 0x68, 0x53, 254, 0x51, 0x02, 0xec, 0x00, 0xE3, 0xFA, 0x6D, 0x16]],
                  incoming = []\<rparr>)"
proof -
  have h1: "mbus_io \<lparr>written = [], incoming = [[0xE5]]\<rparr>
     [0x68, 8, 8, 0x68, 0x53, 254, 0x51, 0x02, 0xec, 0x00, 0xE3, 0xFA, 0x00, 0x16] 14
     (replicate 8 0) 8
   = Some (1, [0x68, 8, 8, 0x68, 0x53, 254, 0x51, 0x02, 0xec, 0x00, 0xE3, 0xFA, 0x6D, 0x16],
           [0xE5, 0, 0, 0, 0, 0, 0, 0],
           \<lparr>written = [[0x68, 8, 8, 0x68, 0x53, 254, 0x51, 0x02, 0xec, 0x00, 0xE3, 0xFA, 0x6D, 0x16]],
            incoming = []\<rparr>)"
    by code_simp
  have h2: "written \<lparr>written = [[0x68, 8, 8, 0x68, 0x53, 254, 0x51, 0x02, 0xec, 0x00, 0xE3, 0xFA, 0x6D, 0x16 :: u8]],
               incoming = []\<rparr>
      \<noteq> written \<lparr>written = [], incoming = [[0xE5 :: u8]]\<rparr>"
    by simp
  show ?thesis
    using h1 h2 mbus_io_acked_reply [OF h1 h2]
    by (simp add: next_reply_def MBUS_FRAME_ACK_def)
qed

text \<open>
  A reply of two bytes that starts with \<open>0xE5\<close> is accepted, and an empty reply gives
  \<open>EIO\<close> (5), not \<open>EPROTO\<close> (71).
\<close>

theorem mbus_io_acked_two_bytes_and_none:
  "length [0xE5, 0x00 :: u8] = 2
   \<and> mbus_io_acked \<lparr>written = [], incoming = [[0xE5, 0x00]]\<rparr>
        [0x68, 8, 8, 0x68, 0x53, 254, 0x51, 0x02, 0xec, 0x00, 0xE3, 0xFA, 0x00, 0x16] 14
        (replicate 8 0)
      = Some (0, \<lparr>written = [[0x68, 8, 8, 0x68, 0x53, 254, 0x51, 0x02, 0xec, 0x00, 0xE3, 0xFA, 0x6D, 0x16]],
                  incoming = []\<rparr>)
   \<and> mbus_io_acked \<lparr>written = [], incoming = [[]]\<rparr>
        [0x68, 8, 8, 0x68, 0x53, 254, 0x51, 0x02, 0xec, 0x00, 0xE3, 0xFA, 0x00, 0x16] 14
        (replicate 8 0)
      = Some (5, \<lparr>written = [[0x68, 8, 8, 0x68, 0x53, 254, 0x51, 0x02, 0xec, 0x00, 0xE3, 0xFA, 0x6D, 0x16]],
                  incoming = []\<rparr>)
   \<and> EPROTO = 71"
  by code_simp

section \<open>Long frames through the outbound path\<close>

lemma frame_take: "length hdr = 7 \<Longrightarrow> take (length p + 7) (hdr @ p @ ftr) = hdr @ p"
  by simp

lemma frame_upd:
  "length hdr = 7 \<Longrightarrow> (hdr @ p @ [x, y])[length p + 7 := v] = hdr @ p @ [v, y]"
  by (simp add: list_update_append)

lemma long_frame_length: "length (long_frame c a ci payload) = length payload + 9"
  by (simp add: long_frame_def)

text \<open>The frame of \<^verbatim>\<open>em_set_keyday\<close> is of that layout.\<close>

lemma long_frame_em_set_keyday:
  "long_frame MBUS_C_SND_UD 254 MBUS_CI_DATA_SEND
     [0x02, 0xec, 0x00, EM_SET_KEYDAY_DAY OR 0xE0, EM_SET_KEYDAY_MONTH OR 0xF0]
   = [MBUS_FRAME_LONG_START, 8, 8, MBUS_FRAME_LONG_START,
      MBUS_C_SND_UD, 254, MBUS_CI_DATA_SEND, 0x02, 0xec, 0x00,
      EM_SET_KEYDAY_DAY OR 0xE0, EM_SET_KEYDAY_MONTH OR 0xF0, 0x00, MBUS_FRAME_STOP]"
  by (simp add: long_frame_def)

lemma long_frame_filled:
  "(long_frame c a ci payload)[length payload + 7 := v] =
     [MBUS_FRAME_LONG_START, of_nat (3 + length payload), of_nat (3 + length payload),
      MBUS_FRAME_LONG_START, c, a, ci] @ payload @ [v, MBUS_FRAME_STOP]"
  unfolding long_frame_def by (rule frame_upd) simp

lemma filled_nth:
  "length hdr = 7 \<Longrightarrow> i < 7 \<Longrightarrow> (hdr @ p @ [v, y]) ! i = hdr ! i"
  "length hdr = 7 \<Longrightarrow> (hdr @ p @ [v, y]) ! (length p + 7) = v"
  "length hdr = 7 \<Longrightarrow> (hdr @ p @ [v, y]) ! (length p + 8) = y"
  "length hdr = 7 \<Longrightarrow> i < length p \<Longrightarrow> (hdr @ p @ [v, y]) ! (7 + i) = p ! i"
  by (simp_all add: nth_append)

lemma filled_cslong:
  assumes "length hdr = 7" and "length p + 9 < 2 ^ 32"
  shows "mbus_cslong (hdr @ p @ [v, y]) (length p + 9)
         = Some (hdr ! 4 + hdr ! 5 + hdr ! 6 + sum_list p)"
proof -
  let ?f = "hdr @ p @ [v, y]"
  have "mbus_cslong ?f (length p + 9) = Some (sum_list (drop 4 (take (length p + 9 - 2) ?f)))"
    using assms by (intro mbus_cslong_sum) simp_all
  moreover have "take (length p + 9 - 2) ?f = hdr @ p"
    using assms(1) by simp
  moreover have "drop 4 hdr = [hdr ! 4, hdr ! 5, hdr ! 6]"
    using assms(1) by (intro nth_equalityI) (auto simp: less_Suc_eq numeral_3_eq_3)
  ultimately show ?thesis
    using assms(1) by (simp add: add.assoc)
qed


lemma those_map_Some:
  "(\<And>x. x \<in> set xs \<Longrightarrow> g x = Some (h x)) \<Longrightarrow> those (map g xs) = Some (map h xs)"
  by (induction xs) simp_all

lemma those_map_rd:
  "b \<le> length f \<Longrightarrow> those (map (rd f) [a..<b]) = Some (map ((!) f) [a..<b])"
  by (rule those_map_Some) (simp add: rd_def)

lemma filled_checklong:
  assumes hdr: "length hdr = 7" "hdr ! 0 = MBUS_FRAME_LONG_START" "hdr ! 3 = MBUS_FRAME_LONG_START"
      "hdr ! 1 = of_nat (3 + length p)" "hdr ! 2 = of_nat (3 + length p)"
    and n: "length p \<le> 246"
    and env: "hdr ! 6 = MBUS_CI_RSPUD12 \<Longrightarrow> 12 \<le> length p"
  shows "mbus_checklong (hdr @ p @ [hdr ! 4 + hdr ! 5 + hdr ! 6 + sum_list p, MBUS_FRAME_STOP])
           (length p + 9) = Some (Inr (of_nat (length p + 9)))"
proof -
  let ?n = "length p"
  let ?f = "hdr @ p @ [hdr ! 4 + hdr ! 5 + hdr ! 6 + sum_list p, MBUS_FRAME_STOP]"
  have len: "length ?f = ?n + 9" using hdr(1) by simp
  have rdf: "\<And>i. i < ?n + 9 \<Longrightarrow> rd ?f i = Some (?f ! i)"
    using len by (simp add: rd_def)
  have r0: "rd ?f 0 = Some MBUS_FRAME_LONG_START" "rd ?f 3 = Some MBUS_FRAME_LONG_START"
    "rd ?f 1 = Some (of_nat (3 + ?n))" "rd ?f 2 = Some (of_nat (3 + ?n))"
    "rd ?f 4 = Some (hdr ! 4)" "rd ?f 5 = Some (hdr ! 5)" "rd ?f 6 = Some (hdr ! 6)"
    using hdr by (simp_all add: rdf filled_nth(1) del: of_nat_add)
  have ll: "(of_nat (3 + ?n) :: u8) + 4 + of_nat MBUS_FRAME_FTR_LEN = of_nat (?n + 9)"
    by (simp add: MBUS_FRAME_FTR_LEN_def)
  have un: "unat (of_nat (?n + 9) :: u8) = ?n + 9"
    by (rule of_nat_inverse [OF refl]) (use n in simp)
  have ui: "uint (of_nat (?n + 9) :: u8) = int (?n + 9)"
    unfolding uint_nat un ..
  have stop: "rdi ?f (int (?n + 9) - 1) = Some MBUS_FRAME_STOP"
  proof -
    have i8: "int (?n + 9) - 1 = int (?n + 8)" by simp
    show ?thesis unfolding i8 rdi_def
      by (simp add: rdf filled_nth(3) [OF hdr(1)] del: of_nat_add)
  qed
  have chk: "rdi ?f (int (?n + 9) - int MBUS_FRAME_FTR_LEN)
      = Some (hdr ! 4 + hdr ! 5 + hdr ! 6 + sum_list p)"
  proof -
    have i7: "int (?n + 9) - int MBUS_FRAME_FTR_LEN = int (?n + 7)"
      by (simp add: MBUS_FRAME_FTR_LEN_def)
    show ?thesis unfolding i7 rdi_def
      by (simp add: rdf filled_nth(2) [OF hdr(1)] del: of_nat_add)
  qed
  have cs: "mbus_cslong ?f (?n + 9) = Some (hdr ! 4 + hdr ! 5 + hdr ! 6 + sum_list p)"
    using hdr(1) n by (intro filled_cslong) simp_all
  have envl: "hdr ! 6 = MBUS_CI_RSPUD12
      \<Longrightarrow> those (map (rd ?f) [7..<19]) = Some (map ((!) ?f) [7..<19])"
    using env len by (intro those_map_rd) simp
  have small: "\<not> ?n + 9 < MBUS_FRAME_LONG_HDR_LEN + MBUS_FRAME_FTR_LEN"
    by (simp add: MBUS_FRAME_LONG_HDR_LEN_def MBUS_FRAME_FTR_LEN_def)
  show ?thesis
  proof (cases "hdr ! 6 = MBUS_CI_RSPUD12")
    case True
    show ?thesis
      unfolding mbus_checklong_def
      by (simp only: small r0 ll un ui stop chk cs envl [OF True] if_P [OF True] Let_def
          if_False if_True bind.simps simp_thms order.refl not_less less_irrefl)
  next
    case False
    show ?thesis
      unfolding mbus_checklong_def
      by (simp only: small r0 ll un ui stop chk cs False Let_def if_False if_True
          bind.simps simp_thms order.refl not_less less_irrefl)
  qed
qed


text \<open>
  A frame in the layout of \<open>long_frame\<close> with at most 246 bytes of data (and at least 12
  when the control information is \<^verbatim>\<open>MBUS_CI_RSPUD12\<close>) passes the outbound path of
  \<^verbatim>\<open>mbus_io\<close>: the checksum byte is filled in, \<^verbatim>\<open>mbus_checklong\<close> returns the length of
  the whole frame, and control, address, control information and data stand where they
  were put.
\<close>

lemma long_frame_roundtrip:
  fixes c a ci :: u8 and payload :: "u8 list"
  defines "hdr \<equiv> [MBUS_FRAME_LONG_START, of_nat (3 + length payload),
                    of_nat (3 + length payload), MBUS_FRAME_LONG_START, c, a, ci]"
  defines "sealed \<equiv> hdr @ payload @ [c + a + ci + sum_list payload, MBUS_FRAME_STOP]"
  assumes n: "length payload \<le> 246"
    and env: "ci = MBUS_CI_RSPUD12 \<Longrightarrow> 12 \<le> length payload"
  shows "mbus_io t (long_frame c a ci payload) (length payload + 9) inb inlen =
           serial_read (t\<lparr>written := written t @ [sealed]\<rparr>) inb inlen
             \<bind> (\<lambda>(len, inb', t''). Some (len, sealed, inb', t''))"
    and "mbus_checklong sealed (length payload + 9) = Some (Inr (of_nat (length payload + 9)))"
    and "unat (of_nat (length payload + 9) :: u8) = length payload + 9"
    and "sealed ! 4 = c" and "sealed ! 5 = a" and "sealed ! 6 = ci"
    and "take (length payload) (drop 7 sealed) = payload"
proof -
  let ?n = "length payload"
  have h7: "length hdr = 7" by (simp add: hdr_def)
  have hn: "hdr ! 0 = MBUS_FRAME_LONG_START" "hdr ! 3 = MBUS_FRAME_LONG_START"
    "hdr ! 1 = of_nat (3 + ?n)" "hdr ! 2 = of_nat (3 + ?n)"
    "hdr ! 4 = c" "hdr ! 5 = a" "hdr ! 6 = ci"
    by (simp_all add: hdr_def del: of_nat_add)
  have lf: "long_frame c a ci payload = hdr @ payload @ [0, MBUS_FRAME_STOP]"
    by (simp add: long_frame_def hdr_def)
  show chk: "mbus_checklong sealed (?n + 9) = Some (Inr (of_nat (?n + 9)))"
    using filled_checklong [OF h7 hn(1) hn(2) hn(3) hn(4) n] env
    by (simp only: hn sealed_def)
  show un: "unat (of_nat (?n + 9) :: u8) = ?n + 9"
    by (rule of_nat_inverse [OF refl]) (use n in simp)
  show "sealed ! 4 = c" "sealed ! 5 = a" "sealed ! 6 = ci"
    using filled_nth(1) [OF h7, of _ payload] hn by (simp_all add: sealed_def)
  show "take ?n (drop 7 sealed) = payload"
    using h7 by (simp add: sealed_def)
  have cs: "mbus_cslong (long_frame c a ci payload) (?n + 9) = Some (c + a + ci + sum_list payload)"
    using filled_cslong [OF h7, of payload 0 MBUS_FRAME_STOP] n hn by (simp add: lf)
  have w: "wr (long_frame c a ci payload) (size_sub (?n + 9) MBUS_FRAME_FTR_LEN)
              (c + a + ci + sum_list payload) = Some sealed"
  proof -
    have ss: "size_sub (?n + 9) MBUS_FRAME_FTR_LEN = ?n + 7"
      by (simp add: size_sub_def MBUS_FRAME_FTR_LEN_def)
    have lt: "?n + 7 < length (hdr @ payload @ [0, MBUS_FRAME_STOP])"
      using h7 by simp
    show ?thesis
      unfolding ss lf sealed_def wr_def if_P [OF lt] frame_upd [OF h7] ..
  qed
  have r0: "rd (long_frame c a ci payload) 0 = Some MBUS_FRAME_LONG_START"
    by (simp add: rd_def long_frame_def)
  have nz: "checklong_ret (Inr (of_nat (?n + 9))) \<noteq> 0"
  proof -
    have "uint (of_nat (?n + 9) :: u8) = int (?n + 9)"
      unfolding uint_nat un ..
    then have "uint (of_nat (?n + 9) :: u8) \<noteq> 0"
      by (simp only:)
    then show ?thesis by (simp only: checklong_ret_def sum.case simp_thms)
  qed
  have sw: "serial_write t sealed (?n + 9) = Some (int (?n + 9), t\<lparr>written := written t @ [sealed]\<rparr>)"
    using h7 by (simp add: serial_write_def sealed_def)
  have ne5: "?n + 9 \<noteq> MBUS_FRAME_SHORT_HDR_LEN + MBUS_FRAME_FTR_LEN"
    and ge9: "MBUS_FRAME_LONG_HDR_LEN + MBUS_FRAME_FTR_LEN \<le> ?n + 9"
    by (simp_all add: mbus_consts)
  show "mbus_io t (long_frame c a ci payload) (?n + 9) inb inlen =
           serial_read (t\<lparr>written := written t @ [sealed]\<rparr>) inb inlen
             \<bind> (\<lambda>(len, inb', t''). Some (len, sealed, inb', t''))"
    unfolding mbus_io_def
    by (simp only: ne5 ge9 r0 cs w chk nz sw if_False if_True bind.simps simp_thms
        prod.case)
qed

text \<open>
  C1. The round trip of a long frame through \<^verbatim>\<open>mbus_io\<close> and \<^verbatim>\<open>mbus_checklong\<close> breaks
  from 247 bytes of data on, inside the range 0 to 252. With 248 bytes the frame has
  257 bytes and the length byte 251; \<^verbatim>\<open>mbus_checklong\<close> keeps \<open>251 + 6\<close> in an
  \<^verbatim>\<open>unsigned char\<close>, which makes it 1, looks for the stop byte at offset 0, logs
  an invalid stop byte and returns 0. \<^verbatim>\<open>mbus_io\<close> returns \<open>- EPROTO\<close> and sends nothing.
\<close>

theorem long_frame_248_rejected:
  "length (long_frame 0x53 0xFE 0x51 (replicate 248 0)) = 257
   \<and> mbus_io \<lparr>written = [], incoming = [[0xE5]]\<rparr>
        (long_frame 0x53 0xFE 0x51 (replicate 248 0)) 257 (replicate 8 0) 8
      = Some (- EPROTO,
              [0x68, 251, 251, 0x68, 0x53, 0xFE, 0x51] @ replicate 248 0 @ [0xA2, 0x16],
              replicate 8 0,
              \<lparr>written = [], incoming = [[0xE5]]\<rparr>)
   \<and> mbus_checklong
        ([0x68, 251, 251, 0x68, 0x53, 0xFE, 0x51] @ replicate 248 0 @ [0xA2, 0x16]) 257
      = Some (Inl InvalidStop)"
  by code_simp

section \<open>The outbound check of \<^verbatim>\<open>mbus_io\<close>\<close>

lemma rd_None: "(rd data i = None) = (length data \<le> i)"
  by (auto simp: rd_def)

lemma serial_read_None:
  "(serial_read t data maxbytes = None) = (length data < length (next_reply t maxbytes))"
  by (auto simp: serial_read_def next_reply_def Let_def split: list.splits)

lemma mbus_checkshort_None: "mbus_checkshort data len = None \<Longrightarrow> length data < 5"
  by (auto simp: mbus_checkshort_def rd_None mbus_consts split: bind_splits if_splits)

lemma serial_tail_defined:
  assumes "outlen \<le> length out'" and "length (next_reply t inlen) \<le> length inb"
  shows "serial_write t out' outlen \<bind>
           (\<lambda>(n, t'). serial_read t' inb inlen \<bind>
              (\<lambda>(len, inb', t''). Some (len, out', inb', t''))) \<noteq> None"
proof -
  let ?t = "t\<lparr>written := written t @ [take outlen out']\<rparr>"
  have sw: "serial_write t out' outlen = Some (int outlen, ?t)"
    using assms(1) by (simp add: serial_write_def)
  have "next_reply ?t inlen = next_reply t inlen" by (simp add: next_reply_def)
  with assms(2) have "serial_read ?t inb inlen \<noteq> None"
    by (simp add: serial_read_None)
  then obtain x where "serial_read ?t inb inlen = Some x" by auto
  then show ?thesis by (cases x) (simp add: sw)
qed

text \<open>
  When the buffers are as large as the lengths say and the length is in the range of the
  loop counter, a run of \<^verbatim>\<open>mbus_io\<close> can only be undefined inside \<^verbatim>\<open>mbus_checklong\<close>.
\<close>

lemma mbus_io_defined:
  assumes le: "outlen \<le> length out" and "outlen < 2 ^ 32"
    and rep: "length (next_reply t inlen) \<le> length inb"
    and chk: "\<And>cs. 9 \<le> outlen \<Longrightarrow> rd out 0 = Some MBUS_FRAME_LONG_START \<Longrightarrow>
           mbus_cslong out outlen = Some cs \<Longrightarrow>
           mbus_checklong (out[outlen - 2 := cs]) outlen \<noteq> None"
  shows "mbus_io t out outlen inb inlen \<noteq> None"
proof (cases "outlen = MBUS_FRAME_SHORT_HDR_LEN + MBUS_FRAME_FTR_LEN")
  case True
  then have o5: "outlen = 5" by (simp add: mbus_consts)
  with le have l: "5 \<le> length out" by simp
  then have "rd out 0 = Some (out ! 0)" "rd out 1 = Some (out ! 1)" "rd out 2 = Some (out ! 2)"
    by (auto simp: rd_def)
  then obtain o0 o1 o2 where r: "rd out 0 = Some o0" "rd out 1 = Some o1" "rd out 2 = Some o2"
    by blast
  show ?thesis
  proof (cases "o0 = MBUS_FRAME_SHORT_START")
    case s: True
    have "size_sub outlen MBUS_FRAME_FTR_LEN < length out"
      using o5 l by (simp add: size_sub_def mbus_consts)
    then obtain out' where w: "wr out (size_sub outlen MBUS_FRAME_FTR_LEN) (o1 + o2) = Some out'"
      by (simp add: wr_def)
    then have l': "length out' = length out" by (auto simp: wr_def split: if_splits)
    with l have "mbus_checkshort out' outlen \<noteq> None"
      using mbus_checkshort_None [of out' outlen] by auto
    then obtain c where c: "mbus_checkshort out' outlen = Some c" by auto
    have tail: "serial_write t out' outlen \<bind>
           (\<lambda>(n, t'). serial_read t' inb inlen \<bind>
              (\<lambda>(len, inb', t''). Some (len, out', inb', t''))) \<noteq> None"
      using le l' rep by (intro serial_tail_defined) simp_all
    show ?thesis
      unfolding mbus_io_def
      using tail by (simp only: if_P [OF True] r s w c bind.simps simp_thms if_True split: if_splits)
        simp
  next
    case s: False
    have n9: "\<not> MBUS_FRAME_LONG_HDR_LEN + MBUS_FRAME_FTR_LEN \<le> outlen"
      using o5 by (simp add: mbus_consts)
    show ?thesis
      unfolding mbus_io_def
      by (simp only: if_P [OF True] r s n9 bind.simps simp_thms if_False option.inject)
        simp
  qed
next
  case False
  show ?thesis
  proof (cases "MBUS_FRAME_LONG_HDR_LEN + MBUS_FRAME_FTR_LEN \<le> outlen")
    case n9: False
    show ?thesis
      unfolding mbus_io_def
      by (simp only: if_not_P [OF False] if_not_P [OF n9] bind.simps simp_thms if_False) simp
  next
    case g9: True
    then have o9: "9 \<le> outlen" by (simp add: mbus_consts)
    with le have "rd out 0 = Some (out ! 0)" by (auto simp: rd_def)
    then obtain o0 where r0: "rd out 0 = Some o0" by blast
    show ?thesis
    proof (cases "o0 = MBUS_FRAME_LONG_START")
      case s: False
      show ?thesis
        unfolding mbus_io_def
        by (simp only: if_not_P [OF False] if_P [OF g9] r0 s bind.simps simp_thms if_False)
          simp
    next
      case s: True
      from mbus_cslong_sum [of outlen out] o9 le assms(2)
      obtain cs where cs: "mbus_cslong out outlen = Some cs" by auto
      have ss: "size_sub outlen MBUS_FRAME_FTR_LEN = outlen - 2"
        using o9 by (simp add: size_sub_def mbus_consts)
      have w: "wr out (size_sub outlen MBUS_FRAME_FTR_LEN) cs = Some (out[outlen - 2 := cs])"
        unfolding ss using o9 le by (simp add: wr_def)
      from chk [OF o9 r0 [unfolded s] cs]
      obtain c where c: "mbus_checklong (out[outlen - 2 := cs]) outlen = Some c" by auto
      have tail: "serial_write t (out[outlen - 2 := cs]) outlen \<bind>
           (\<lambda>(n, t'). serial_read t' inb inlen \<bind>
              (\<lambda>(len, inb', t''). Some (len, out[outlen - 2 := cs], inb', t''))) \<noteq> None"
        using le rep by (intro serial_tail_defined) simp_all
      show ?thesis
        unfolding mbus_io_def
        using tail
        by (simp only: if_not_P [OF False] if_P [OF g9] r0 s cs w c bind.simps simp_thms
            if_True if_False split: if_splits) simp
    qed
  qed
qed

text \<open>
  C9. A run of \<^verbatim>\<open>mbus_io\<close> that returns has either sent a buffer that passed the
  validator of its shape or returned \<open>- EPROTO\<close> with nothing sent (\<open>mbus_io_SomeD\<close>), and
  a run can only fail to return inside \<^verbatim>\<open>mbus_checklong\<close> (\<open>mbus_io_defined\<close>). That
  happens: for the long frame of 256 bytes with the length byte 250, \<^verbatim>\<open>mbus_checklong\<close>
  computes \<open>250 + 6\<close> in an \<^verbatim>\<open>unsigned char\<close>, which makes it 0, and reads
  \<^verbatim>\<open>data[-1]\<close>, a byte in front of the buffer. The run has no defined result there,
  so it does not return the protocol error.
\<close>

theorem long_frame_247_undefined:
  "length (long_frame 0x53 0xFE 0x51 (replicate 247 0)) = 256
   \<and> mbus_io \<lparr>written = [], incoming = [[0xE5]]\<rparr>
        (long_frame 0x53 0xFE 0x51 (replicate 247 0)) 256 (replicate 8 0) 8
      = None
   \<and> mbus_checklong
        ([0x68, 250, 250, 0x68, 0x53, 0xFE, 0x51] @ replicate 247 0 @ [0xA2, 0x16]) 256
      = None"
  by code_simp

section \<open>The date and time of an info record\<close>

text \<open>
  C7, as the code has it. The record 04 6D 00 00 60 01 has the data format 4 and the VIF
  \<open>0x6D\<close>, so its data bytes 00 00 60 01 are printed as a date and time. The values handed
  to \<^verbatim>\<open>sprintf\<close> are minute 0, hour 0, day 0, month 1 and year 2003: the three top bits of
  the byte \<open>0x60\<close> are the low bits of the year, \<open>2000 + (0x60 >> 5) = 2003\<close>.
\<close>

theorem datetime_value_vector:
  "datetime_value 0x00 0x00 0x60 0x01 = DateTime 2003 1 0 0 0
   \<and> info_val [0x04, 0x6D, 0x00, 0x00, 0x60, 0x01] 2 4 0x6D = Some (DateTime 2003 1 0 0 0)"
  by code_simp

text \<open>The year handed to \<^verbatim>\<open>sprintf\<close> for these bytes is not 2000.\<close>

theorem datetime_value_not_2000:
  "datetime_value 0x00 0x00 0x60 0x01 \<noteq> DateTime 2000 1 0 0 0"
  by code_simp

section \<open>The monthly totals\<close>

lemma mbus_checklong_InrD:
  assumes "mbus_checklong data len = Some (Inr ll)"
  shows "unat ll \<le> len" and "unat ll \<le> length data" and "0 < unat ll"
    and "rd data 1 = Some (ll - 6)"
proof -
  from assms have le: "unat ll \<le> len" and stop: "rdi data (uint ll - 1) \<noteq> None"
    and d1: "rd data 1 = Some (ll - 6)"
    by (auto simp: mbus_checklong_def Let_def MBUS_FRAME_FTR_LEN_def split: bind_splits if_splits)
  from stop have "0 \<le> uint ll - 1" and "nat (uint ll - 1) < length data"
    by (auto simp: rdi_def rd_def split: if_splits)
  then have "0 < unat ll \<and> unat ll \<le> length data"
    unfolding uint_nat by linarith
  with le d1 show "unat ll \<le> len" and "unat ll \<le> length data" and "0 < unat ll"
    and "rd data 1 = Some (ll - 6)"
    by simp_all
qed

lemma drop_bit_bounds:
  fixes x :: int
  assumes "0 \<le> x" and "x \<le> m"
  shows "0 \<le> drop_bit n x \<and> drop_bit n x \<le> m div 2 ^ n"
  using assms by (simp add: drop_bit_eq_div zdiv_mono1 pos_imp_zdiv_nonneg_iff)

lemma months_reading_Some:
  assumes "uint b5 < 0x80"
  shows "months_reading b2 b3 b4 b5 =
     Some (push_bit 24 (uint b5) OR push_bit 16 (uint b4) OR push_bit 8 (uint b3) OR uint b2)"
proof -
  have "push_bit 24 (uint b5) < 2 ^ 31"
    using assms by (simp add: push_bit_eq_mult)
  then show ?thesis by (simp add: months_reading_def)
qed

text \<open>The record decoded from six bytes inside the buffer whose last byte is below \<open>0x80\<close>.\<close>

lemma months_record_eq:
  assumes "off + 5 < length frame_in" and "uint (frame_in ! (off + 5)) < 0x80"
  shows "months_record frame_in off =
     Some \<lparr>mr_year = 2000 + drop_bit 1 (uint (frame_in ! (off + 1)) AND 0b11111110),
           mr_month = drop_bit 5 ((push_bit 8 (uint (frame_in ! (off + 1)))
                                   OR uint (frame_in ! off)) AND 0b111100000),
           mr_day = uint (frame_in ! off) AND 0b11111,
           mr_reading = push_bit 24 (uint (frame_in ! (off + 5)))
                        OR push_bit 16 (uint (frame_in ! (off + 4)))
                        OR push_bit 8 (uint (frame_in ! (off + 3)))
                        OR uint (frame_in ! (off + 2))\<rparr>"
  using assms by (simp add: months_record_def rd_def months_reading_Some)

lemma months_fields_ranges:
  fixes k j :: int
  shows "0 \<le> drop_bit 1 (k AND 254) \<and> drop_bit 1 (k AND 254) \<le> 127"
    and "0 \<le> drop_bit 5 (j AND 480) \<and> drop_bit 5 (j AND 480) \<le> 15"
    and "0 \<le> k AND 31 \<and> k AND 31 \<le> 31"
proof -
  have "0 \<le> k AND 254" "k AND 254 \<le> 254" by simp_all
  from drop_bit_bounds [OF this, of 1]
  show "0 \<le> drop_bit 1 (k AND 254) \<and> drop_bit 1 (k AND 254) \<le> 127" by simp
  have "0 \<le> j AND 480" "j AND 480 \<le> 480" by simp_all
  from drop_bit_bounds [OF this, of 5]
  show "0 \<le> drop_bit 5 (j AND 480) \<and> drop_bit 5 (j AND 480) \<le> 15" by simp
  show "0 \<le> k AND 31 \<and> k AND 31 \<le> 31" by simp
qed

lemma months_loop_Some:
  assumes "\<And>j. j < 15 \<Longrightarrow> months_record frame_in (19 + j * 6) = Some (g j)"
  shows "i \<le> 15 \<Longrightarrow> months_loop frame_in i acc = Some (acc @ map g [i..<15])"
proof (induction "15 - i" arbitrary: i acc)
  case 0
  then have "i = 15" by simp
  then show ?case by (subst months_loop.simps) simp
next
  case (Suc n)
  then have lt: "i < 15" by simp
  have "n = 15 - (i + 1)" "i + 1 \<le> 15" using Suc.hyps(2) lt by simp_all
  from Suc.hyps(1) [OF this, of "acc @ [g i]"]
  have loop: "months_loop frame_in (i + 1) (acc @ [g i]) = Some ((acc @ [g i]) @ map g [i + 1..<15])" .
  have "[i..<15] = i # [i + 1..<15]" using lt by (simp add: upt_conv_Cons)
  then show ?case
    using loop by (subst months_loop.simps) (simp add: lt assms mbus_consts)
qed


text \<open>
  C8, as the code has it. Take a response that \<^verbatim>\<open>em_read_months\<close> accepts (a return value
  of \<^verbatim>\<open>mbus_checklong\<close> of at least 111) and in which the top byte of each of the 15
  readings is below \<open>0x80\<close>, so that no reading overflows. The inner loop decodes exactly
  15 records; the record \<open>i\<close> is made of the six bytes at the offset \<open>19 + 6 * i\<close>: its year
  is 2000 plus the top seven bits of the second byte, from 2000 to 2127; its month the
  four bits above the day, from 0 to 15; its day the low five bits of the first byte,
  from 0 to 31; its reading the little-endian value of the last four bytes, not
  negative. The code checks none of the fields.
\<close>

theorem months_records_fields:
  assumes acc: "mbus_checklong frame_in len = Some r" and ok: "111 \<le> checklong_ret r"
    and top: "\<forall>i<15. uint (frame_in ! (19 + i * 6 + 5)) < 0x80"
  shows "\<exists>recs. months_loop frame_in 0 [] = Some recs \<and> length recs = 15
           \<and> (\<forall>i<15.
                 recs ! i =
                   \<lparr>mr_year = 2000 + drop_bit 1 (uint (frame_in ! (19 + i * 6 + 1)) AND 0b11111110),
                    mr_month = drop_bit 5 ((push_bit 8 (uint (frame_in ! (19 + i * 6 + 1)))
                                            OR uint (frame_in ! (19 + i * 6))) AND 0b111100000),
                    mr_day = uint (frame_in ! (19 + i * 6)) AND 0b11111,
                    mr_reading = push_bit 24 (uint (frame_in ! (19 + i * 6 + 5)))
                                 OR push_bit 16 (uint (frame_in ! (19 + i * 6 + 4)))
                                 OR push_bit 8 (uint (frame_in ! (19 + i * 6 + 3)))
                                 OR uint (frame_in ! (19 + i * 6 + 2))\<rparr>
               \<and> 2000 \<le> mr_year (recs ! i) \<and> mr_year (recs ! i) \<le> 2127
               \<and> 0 \<le> mr_month (recs ! i) \<and> mr_month (recs ! i) \<le> 15
               \<and> 0 \<le> mr_day (recs ! i) \<and> mr_day (recs ! i) \<le> 31
               \<and> 0 \<le> mr_reading (recs ! i))"
proof -
  let ?g = "\<lambda>i. \<lparr>mr_year = 2000 + drop_bit 1 (uint (frame_in ! (19 + i * 6 + 1)) AND 0b11111110),
                    mr_month = drop_bit 5 ((push_bit 8 (uint (frame_in ! (19 + i * 6 + 1)))
                                            OR uint (frame_in ! (19 + i * 6))) AND 0b111100000),
                    mr_day = uint (frame_in ! (19 + i * 6)) AND 0b11111,
                    mr_reading = push_bit 24 (uint (frame_in ! (19 + i * 6 + 5)))
                                 OR push_bit 16 (uint (frame_in ! (19 + i * 6 + 4)))
                                 OR push_bit 8 (uint (frame_in ! (19 + i * 6 + 3)))
                                 OR uint (frame_in ! (19 + i * 6 + 2))\<rparr>"
  from ok obtain ll where r: "r = Inr ll" and ll: "111 \<le> uint ll"
    by (cases r) (auto simp: checklong_ret_def)
  from ll have "111 \<le> unat ll" unfolding uint_nat by linarith
  with mbus_checklong_InrD(2) [OF acc [unfolded r]] have len: "109 \<le> length frame_in"
    by simp
  have rec: "months_record frame_in (19 + j * 6) = Some (?g j)" if "j < 15" for j
  proof -
    have "19 + j * 6 + 5 < length frame_in" using that len by simp
    moreover have "uint (frame_in ! (19 + j * 6 + 5)) < 0x80" using top that by simp
    ultimately show ?thesis by (rule months_record_eq)
  qed
  from months_loop_Some [of frame_in ?g 0 "[]", OF rec]
  have loop: "months_loop frame_in 0 [] = Some (map ?g [0..<15])" by simp
  have "\<forall>i<15. map ?g [0..<15] ! i = ?g i
               \<and> 2000 \<le> mr_year (map ?g [0..<15] ! i) \<and> mr_year (map ?g [0..<15] ! i) \<le> 2127
               \<and> 0 \<le> mr_month (map ?g [0..<15] ! i) \<and> mr_month (map ?g [0..<15] ! i) \<le> 15
               \<and> 0 \<le> mr_day (map ?g [0..<15] ! i) \<and> mr_day (map ?g [0..<15] ! i) \<le> 31
               \<and> 0 \<le> mr_reading (map ?g [0..<15] ! i)"
  proof (intro allI impI)
    fix i :: nat assume i: "i < 15"
    then have nth: "map ?g [0..<15] ! i = ?g i" by simp
    show "map ?g [0..<15] ! i = ?g i
               \<and> 2000 \<le> mr_year (map ?g [0..<15] ! i) \<and> mr_year (map ?g [0..<15] ! i) \<le> 2127
               \<and> 0 \<le> mr_month (map ?g [0..<15] ! i) \<and> mr_month (map ?g [0..<15] ! i) \<le> 15
               \<and> 0 \<le> mr_day (map ?g [0..<15] ! i) \<and> mr_day (map ?g [0..<15] ! i) \<le> 31
               \<and> 0 \<le> mr_reading (map ?g [0..<15] ! i)"
      unfolding nth
      using months_fields_ranges(1) [of "uint (frame_in ! (19 + i * 6 + 1))"]
        months_fields_ranges(2) [of "push_bit 8 (uint (frame_in ! (19 + i * 6 + 1)))
                                            OR uint (frame_in ! (19 + i * 6))"]
        months_fields_ranges(3) [of "uint (frame_in ! (19 + i * 6))"]
      by simp
  qed
  with loop show ?thesis by (intro exI [of _ "map ?g [0..<15]"]) simp
qed

theorem months_records_fields_witness:
  "mbus_checklong ([0x68, 105, 105, 0x68, 8, 0, 0x72] @ replicate 12 0
      @ [0, 0, 0, 0, 0, 0, 0xFF, 0xFF, 1, 0, 0, 0] @ replicate 78 0 @ [0x79, 0x16]) 111 = Some (Inr 111)
   \<and> 111 \<le> checklong_ret (Inr 111)
   \<and> list_all (\<lambda>i. uint (([0x68, 105, 105, 0x68, 8, 0, 0x72] @ replicate 12 0
      @ [0, 0, 0, 0, 0, 0, 0xFF, 0xFF, 1, 0, 0, 0] @ replicate 78 0 @ [0x79, 0x16]) ! (19 + i * 6 + 5)) < 0x80) [0..<15]
   \<and> months_loop ([0x68, 105, 105, 0x68, 8, 0, 0x72] @ replicate 12 0
      @ [0, 0, 0, 0, 0, 0, 0xFF, 0xFF, 1, 0, 0, 0] @ replicate 78 0 @ [0x79, 0x16]) 0 []
      = Some (\<lparr>mr_year = 2000, mr_month = 0, mr_day = 0, mr_reading = 0\<rparr>
              # \<lparr>mr_year = 2127, mr_month = 15, mr_day = 31, mr_reading = 1\<rparr>
              # replicate 13 \<lparr>mr_year = 2000, mr_month = 0, mr_day = 0, mr_reading = 0\<rparr>)"
proof -
  have h1: "mbus_checklong ([0x68, 105, 105, 0x68, 8, 0, 0x72] @ replicate 12 0
      @ [0, 0, 0, 0, 0, 0, 0xFF, 0xFF, 1, 0, 0, 0] @ replicate 78 0 @ [0x79, 0x16]) 111 = Some (Inr 111)"
    by code_simp
  have h2: "111 \<le> checklong_ret (Inr 111)"
    by (simp add: checklong_ret_def)
  have h3': "list_all (\<lambda>i. uint (([0x68, 105, 105, 0x68, 8, 0, 0x72] @ replicate 12 0
      @ [0, 0, 0, 0, 0, 0, 0xFF, 0xFF, 1, 0, 0, 0] @ replicate 78 0 @ [0x79, 0x16]) ! (19 + i * 6 + 5)) < 0x80) [0..<15]"
    by code_simp
  have h3: "\<forall>i<15. uint (([0x68, 105, 105, 0x68, 8, 0, 0x72] @ replicate 12 0
      @ [0, 0, 0, 0, 0, 0, 0xFF, 0xFF, 1, 0, 0, 0] @ replicate 78 0 @ [0x79, 0x16]) ! (19 + i * 6 + 5)) < 0x80"
    using h3' unfolding list_all_iff set_upt by (simp only: Ball_def atLeastLessThan_iff) blast
  have v: "months_loop ([0x68, 105, 105, 0x68, 8, 0, 0x72] @ replicate 12 0
      @ [0, 0, 0, 0, 0, 0, 0xFF, 0xFF, 1, 0, 0, 0] @ replicate 78 0 @ [0x79, 0x16]) 0 []
      = Some (\<lparr>mr_year = 2000, mr_month = 0, mr_day = 0, mr_reading = 0\<rparr>
              # \<lparr>mr_year = 2127, mr_month = 15, mr_day = 31, mr_reading = 1\<rparr>
              # replicate 13 \<lparr>mr_year = 2000, mr_month = 0, mr_day = 0, mr_reading = 0\<rparr>)"
    by code_simp
  from months_records_fields [OF h1 h2 h3] have "\<exists>recs. months_loop ([0x68, 105, 105, 0x68, 8, 0, 0x72] @ replicate 12 0
      @ [0, 0, 0, 0, 0, 0, 0xFF, 0xFF, 1, 0, 0, 0] @ replicate 78 0 @ [0x79, 0x16]) 0 [] = Some recs"
    by blast
  with h1 h2 h3' v show ?thesis by (intro conjI)
qed

text \<open>
  An accepted response of 111 bytes whose first record has the month 0 and the day 0 and
  whose second record has the month 15. \<^verbatim>\<open>em_read_months\<close> returns 0 on two such
  responses.
\<close>

theorem months_records_out_of_calendar:
  "mbus_checklong ([0x68, 105, 105, 0x68, 8, 0, 0x72] @ replicate 12 0
      @ [0, 0, 0, 0, 0, 0, 0xFF, 0xFF, 1, 0, 0, 0] @ replicate 78 0 @ [0x79, 0x16]) 111 = Some (Inr 111)
   \<and> months_record ([0x68, 105, 105, 0x68, 8, 0, 0x72] @ replicate 12 0
      @ [0, 0, 0, 0, 0, 0, 0xFF, 0xFF, 1, 0, 0, 0] @ replicate 78 0 @ [0x79, 0x16]) 19
     = Some \<lparr>mr_year = 2000, mr_month = 0, mr_day = 0, mr_reading = 0\<rparr>
   \<and> months_record ([0x68, 105, 105, 0x68, 8, 0, 0x72] @ replicate 12 0
      @ [0, 0, 0, 0, 0, 0, 0xFF, 0xFF, 1, 0, 0, 0] @ replicate 78 0 @ [0x79, 0x16]) 25
     = Some \<lparr>mr_year = 2127, mr_month = 15, mr_day = 31, mr_reading = 1\<rparr>
   \<and> map_option fst (em_read_months
        \<lparr>written = [], incoming = [[0x68, 105, 105, 0x68, 8, 0, 0x72] @ replicate 12 0
      @ [0, 0, 0, 0, 0, 0, 0xFF, 0xFF, 1, 0, 0, 0] @ replicate 78 0 @ [0x79, 0x16], [0x68, 105, 105, 0x68, 8, 0, 0x72] @ replicate 12 0
      @ [0, 0, 0, 0, 0, 0, 0xFF, 0xFF, 1, 0, 0, 0] @ replicate 78 0 @ [0x79, 0x16]]\<rparr>
        (replicate 256 0))
     = Some 0"
  by code_simp

section \<open>The end of the record stream\<close>

lemma read_info_visits_loop:
  "read_info_visits frame_in p acc \<Longrightarrow>
   read_info_loop frame_in (MBUS_FRAME_LONG_HDR_LEN + MBUS_RSPUD12_HDR_LEN) []
     = read_info_loop frame_in p acc"
proof (induction rule: read_info_visits.induct)
  case start
  show ?case ..
next
  case (step p acc ln p' f1)
  have "read_info_loop frame_in p acc = read_info_loop frame_in p' (acc @ [ln])"
    using step.hyps(2-4) by (subst read_info_loop.simps) simp
  with step.IH show ?case by simp
qed

lemma read_info_visits_pos:
  "read_info_visits frame_in p acc \<Longrightarrow> rd frame_in 1 = Some f1 \<Longrightarrow>
   p = MBUS_FRAME_LONG_HDR_LEN + MBUS_RSPUD12_HDR_LEN \<or> p \<le> unat f1"
  by (induction rule: read_info_visits.induct) auto

lemma hasext_le: "nat (drop_bit 7 (uint (b :: u8) AND 0x80)) \<le> 1"
proof -
  have "drop_bit 7 (uint b AND 0x80) = drop_bit 7 (uint b) AND 1" by simp
  moreover have "drop_bit 7 (uint b) AND 1 \<le> 1" by simp
  ultimately show ?thesis by linarith
qed

lemma read_info_record_unsupported:
  assumes "rd frame_in p = Some b" and "7 < (uint b AND 0b1111)" and "p + 3 < length frame_in"
  shows "read_info_record frame_in p = Some Unsupported"
proof -
  let ?h = "nat (drop_bit 7 (uint b AND 0x80))"
  have h: "?h \<le> 1" by (rule hasext_le)
  then have "p + 1 + ?h < length frame_in" using assms(3) by linarith
  then obtain bv where bv: "rd frame_in (p + 1 + ?h) = Some bv" by (simp add: rd_def)
  have "p + 1 < length frame_in" using assms(3) by simp
  then obtain b1 where b1: "rd frame_in (p + 1) = Some b1" by (simp add: rd_def)
  have "p + 1 + ?h + 1 < length frame_in" using assms(3) h by linarith
  then obtain bx where bx: "rd frame_in (p + 1 + ?h + 1) = Some bx" by (simp add: rd_def)
  have df: "7 < nat (uint b AND 0b1111)" using assms(2) by simp
  have s: "sprintf_buf 0 (5 + 2) = Some 7" "sprintf_buf 7 3 = Some 10"
    "sprintf_buf 10 (6 + 2) = Some 18" "sprintf_buf 18 3 = Some 21"
    by (simp_all add: sprintf_buf_def)
  show ?thesis
    unfolding read_info_record_def
    by (simp only: assms(1) bv b1 bx df s bind.simps Let_def if_True)
qed

text \<open>
  When the loop comes to a DIF with a low nibble above 7 in an accepted response, it ends
  there with the result 0 and the lines logged so far.
\<close>

lemma em_read_info_unsupported_format:
  assumes io: "mbus_io t [MBUS_FRAME_SHORT_START, MBUS_C_REQ_UD2, 254, 0x00, MBUS_FRAME_STOP] 5
                 frame_in 256 = Some (len, out', frame_in', t')"
    and len: "0 \<le> len"
    and chk: "mbus_checklong frame_in' (nat len) = Some r"
    and ok: "71 \<le> checklong_ret r"
    and visits: "read_info_visits frame_in' p acc"
    and dif: "rd frame_in' p = Some b"
    and df: "7 < (uint b AND 0b1111)"
  shows "em_read_info t frame_in = Some (0, acc, t')"
proof -
  from ok obtain ll where r: "r = Inr ll" and ll: "71 \<le> uint ll"
    by (cases r) (auto simp: checklong_ret_def)
  from ll have ull: "71 \<le> unat ll" unfolding uint_nat by linarith
  note D = mbus_checklong_InrD [OF chk [unfolded r]]
  have f1: "rd frame_in' 1 = Some (ll - 6)" by (rule D(4))
  have "unat (ll - 6) = unat ll - 6"
    using ull by (simp add: unat_sub word_le_nat_alt)
  with ull have L: "19 \<le> unat (ll - 6)" and L6: "unat (ll - 6) + 6 = unat ll"
    by simp_all
  from read_info_visits_pos [OF visits f1] L have "p \<le> unat (ll - 6)"
    by (auto simp: mbus_consts)
  with L6 D(2) have "p + 3 < length frame_in'" by linarith
  from read_info_record_unsupported [OF dif df this]
  have "read_info_loop frame_in' p acc = Some acc"
    by (subst read_info_loop.simps) simp
  with read_info_visits_loop [OF visits]
  have loop: "read_info_loop frame_in' (MBUS_FRAME_LONG_HDR_LEN + MBUS_RSPUD12_HDR_LEN) [] = Some acc"
    by simp
  have nl: "\<not> checklong_ret r < 71" using ok by simp
  have nn: "\<not> len < 0" using len by simp
  have l5: "length [MBUS_FRAME_SHORT_START, MBUS_C_REQ_UD2, 254, 0x00, MBUS_FRAME_STOP] = 5"
    by simp
  show ?thesis
    unfolding em_read_info_def Let_def
    by (simp only: l5 io bind.simps prod.case nn nl chk loop if_False)
qed

text \<open>
  A response with the record 04 13 2A 00 00 00 at offset 19 and the DIF \<open>0x0F\<close> at offset
  25: one line is logged and the result is 0.
\<close>

lemma em_read_info_plain_then_unsupported:
  "em_read_info \<lparr>written = [], incoming = [[0x68, 65, 65, 0x68, 8, 0, 0x72] @ replicate 12 0
        @ [0x04, 0x13, 0x2A, 0, 0, 0, 0x0F] @ replicate 43 0 @ [0xCA, 0x16]]\<rparr> (replicate 256 0)
   = Some (0, [\<lparr>dif = 0x04, dife = None, vif = 0x13, vife = None, sn = 0,
                 raw = [0x2A, 0, 0, 0], val = Plain 42\<rparr>],
           \<lparr>written = [[0x10, 0x7b, 254, 0x79, 0x16]], incoming = []\<rparr>)"
  by code_simp

text \<open>
  C6. An accepted response of 71 bytes with the date and time record 04 6D 00 00 60 01 at
  offset 19 and the DIF \<open>0x0F\<close> at offset 25. The loop does not come to the DIF \<open>0x0F\<close> in a
  defined way: the line of the first record has 45 characters when its value is
  printed, the value \<^verbatim>\<open>" VAL: 2003-01-00 00:00"\<close> has 22, and with the terminating zero
  that is 68 bytes in \<^verbatim>\<open>char buf[64]\<close>. The run of \<^verbatim>\<open>em_read_info\<close> has no defined result,
  so it does not complete with the result 0.
\<close>

theorem em_read_info_datetime_then_unsupported:
  "mbus_checklong ([0x68, 65, 65, 0x68, 8, 0, 0x72] @ replicate 12 0
        @ [0x04, 0x6D, 0, 0, 0x60, 1, 0x0F] @ replicate 43 0 @ [0x5B, 0x16]
        @ replicate 185 0) (nat 71) = Some (Inr 71)
   \<and> rd ([0x68, 65, 65, 0x68, 8, 0, 0x72] @ replicate 12 0
        @ [0x04, 0x6D, 0, 0, 0x60, 1, 0x0F] @ replicate 43 0 @ [0x5B, 0x16]
        @ replicate 185 0) 25 = Some 0x0F
   \<and> sprintf_buf 45 (val_len (DateTime 2003 1 0 0 0)) = None
   \<and> read_info_record ([0x68, 65, 65, 0x68, 8, 0, 0x72] @ replicate 12 0
        @ [0x04, 0x6D, 0, 0, 0x60, 1, 0x0F] @ replicate 43 0 @ [0x5B, 0x16]
        @ replicate 185 0) 19 = None
   \<and> em_read_info \<lparr>written = [], incoming = [[0x68, 65, 65, 0x68, 8, 0, 0x72] @ replicate 12 0
        @ [0x04, 0x6D, 0, 0, 0x60, 1, 0x0F] @ replicate 43 0 @ [0x5B, 0x16]]\<rparr> (replicate 256 0) = None"
  by code_simp

end
